theory Spec2Isabelle
  imports Main "HOL-Library.Monad_Syntax"
begin

section \<open>Strings, buffers and the result envelope\<close>

text \<open>
  A JavaScript string is a sequence of UTF-16 code units; a \<open>Buffer\<close> is a sequence of
  bytes. Both are lists of naturals here (a code unit is below 65536, a byte below 256).
  Paths, URIs and cache keys are only compared and cut at prefixes, so they are HOL strings.
\<close>

type_synonym ustring = "nat list"
type_synonym buffer = "nat list"

definition lit :: "string \<Rightarrow> ustring" where
  "lit s = map of_char s"

text \<open>
  \<open>isSpace\<close> is the class \<open>\s\<close> of a JavaScript regular expression, which is also what
  \<open>String.prototype.trim\<close> strips: WhiteSpace and LineTerminator of ECMAScript.
\<close>

definition isSpace :: "nat \<Rightarrow> bool" where
  "isSpace c = (c \<in> {9, 10, 11, 12, 13, 32, 160, 0x1680, 0x2028, 0x2029, 0x202F, 0x205F, 0x3000, 0xFEFF}
      \<or> (0x2000 \<le> c \<and> c \<le> 0x200A))"

text \<open>\<open>s.replace(/\s+/g, ' ')\<close>: every maximal run of white space becomes one space.\<close>

function replace_spaces :: "ustring \<Rightarrow> ustring" where
  "replace_spaces [] = []"
| "replace_spaces (c # cs) =
     (if isSpace c then 32 # replace_spaces (dropWhile isSpace cs) else c # replace_spaces cs)"
  by pat_completeness auto
termination
  by (relation "measure length") (auto simp: length_dropWhile_le less_Suc_eq_le)

definition trim :: "ustring \<Rightarrow> ustring" where
  "trim s = rev (dropWhile isSpace (rev (dropWhile isSpace s)))"

text \<open>
  \<open>s.split('\n')\<close>: the pieces between line feeds; the empty string splits into one
  empty piece.
\<close>

fun split_lines :: "ustring \<Rightarrow> ustring list" where
  "split_lines [] = [[]]"
| "split_lines (c # cs) =
     (if c = 10 then [] # split_lines cs
      else (case split_lines cs of [] \<Rightarrow> [[c]] | l # ls \<Rightarrow> (c # l) # ls))"

text \<open>\<open>xs.join('\n')\<close>.\<close>

fun join_lines :: "ustring list \<Rightarrow> ustring" where
  "join_lines [] = []"
| "join_lines [l] = l"
| "join_lines (l # ls) = l @ 10 # join_lines ls"

text \<open>\<open>xs.slice(start, end)\<close> for \<open>0 \<le> start\<close>, and \<open>xs.slice(-n)\<close>.\<close>

definition slice :: "'a list \<Rightarrow> nat \<Rightarrow> nat \<Rightarrow> 'a list" where
  "slice xs start end = take (end - start) (drop start xs)"

definition slice_last :: "nat \<Rightarrow> 'a list \<Rightarrow> 'a list" where
  "slice_last n xs = drop (length xs - n) xs"

text \<open>
  What an operation catches at its boundary. The envelope's \<open>error\<close> is either a fixed
  text of the source or the message of the caught exception; the \<open>message\<close> field of the
  source repeats the outcome for a human reader and is left out. \<open>res_path\<close> is the
  envelope's \<open>path\<close>.
\<close>

datatype errno = ENOENT | EISDIR | ENOTDIR | EEXIST

datatype exn = ZodError | ErrnoException errno | SyntaxError | URIError | UnknownResource

datatype error_text = Text string | Message exn

record 'd FileOperationResult =
  success :: bool
  res_path :: string
  data :: "'d option"
  error :: "error_text option"

definition ok :: "string \<Rightarrow> 'd option \<Rightarrow> 'd FileOperationResult" where
  "ok p d = \<lparr>success = True, res_path = p, data = d, error = None\<rparr>"

definition failed :: "string \<Rightarrow> error_text \<Rightarrow> 'd FileOperationResult" where
  "failed p e = \<lparr>success = False, res_path = p, data = None, error = Some e\<rparr>"

section \<open>The file system\<close>

text \<open>
  The file system is a map from the path string to what is there. Two spellings of one
  path are two keys, and links are not modelled. \<open>dirname\<close> cuts the last component of a
  path without a trailing slash.
\<close>

datatype node = File (bytes: buffer) | Directory

type_synonym filesystem = "string \<rightharpoonup> node"

definition fs_access :: "filesystem \<Rightarrow> string \<Rightarrow> exn + unit" where
  "fs_access fs p = (case fs p of None \<Rightarrow> Inl (ErrnoException ENOENT) | Some _ \<Rightarrow> Inr ())"

definition fs_readFile :: "filesystem \<Rightarrow> string \<Rightarrow> exn + buffer" where
  "fs_readFile fs p =
     (case fs p of
        None \<Rightarrow> Inl (ErrnoException ENOENT)
      | Some Directory \<Rightarrow> Inl (ErrnoException EISDIR)
      | Some (File bs) \<Rightarrow> Inr bs)"

definition dirname :: "string \<Rightarrow> string" where
  "dirname p =
     (let d = rev (drop 1 (dropWhile (\<lambda>c. c \<noteq> CHR ''/'') (rev p)))
      in if CHR ''/'' \<notin> set p then ''.'' else if d = [] then ''/'' else d)"

text \<open>The path and its ancestors, shortest first: what \<open>mkdir -p\<close> visits.\<close>

definition path_chain :: "string \<Rightarrow> string list" where
  "path_chain d = [take i d. i \<leftarrow> [1..<length d], d ! i = CHR ''/''] @ [d]"

definition is_file :: "node option \<Rightarrow> bool" where
  "is_file n = (case n of Some (File _) \<Rightarrow> True | _ \<Rightarrow> False)"

definition fs_mkdir_recursive :: "filesystem \<Rightarrow> string \<Rightarrow> exn + filesystem" where
  "fs_mkdir_recursive fs d =
     (if list_ex (\<lambda>q. is_file (fs q)) (path_chain d) then Inl (ErrnoException EEXIST)
      else Inr (fold (\<lambda>q f. f(q \<mapsto> Directory)) (path_chain d) fs))"

datatype flag = FlagW | FlagA

definition fs_writeFile :: "filesystem \<Rightarrow> string \<Rightarrow> buffer \<Rightarrow> flag \<Rightarrow> exn + filesystem" where
  "fs_writeFile fs p bs fl =
     (case fs p of
        Some Directory \<Rightarrow> Inl (ErrnoException EISDIR)
      | Some (File old) \<Rightarrow> Inr (fs(p \<mapsto> File (if fl = FlagA then old @ bs else bs)))
      | None \<Rightarrow>
          if fs (dirname p) = Some Directory then Inr (fs(p \<mapsto> File bs))
          else Inl (ErrnoException ENOENT))"

record Stats =
  isDirectory :: bool
  st_size :: nat

text \<open>The size the system reports for a directory is not modelled (it is 0 here).\<close>

definition fs_stat :: "filesystem \<Rightarrow> string \<Rightarrow> exn + Stats" where
  "fs_stat fs p =
     (case fs p of
        None \<Rightarrow> Inl (ErrnoException ENOENT)
      | Some Directory \<Rightarrow> Inr \<lparr>isDirectory = True, st_size = 0\<rparr>
      | Some (File bs) \<Rightarrow> Inr \<lparr>isDirectory = False, st_size = length bs\<rparr>)"

definition fs_unlink :: "filesystem \<Rightarrow> string \<Rightarrow> exn + filesystem" where
  "fs_unlink fs p =
     (case fs p of
        None \<Rightarrow> Inl (ErrnoException ENOENT)
      | Some Directory \<Rightarrow> Inl (ErrnoException EISDIR)
      | Some (File _) \<Rightarrow> Inr (fs(p := None)))"

definition inside :: "string \<Rightarrow> string \<Rightarrow> bool" where
  "inside d q = (q = d \<or> take (Suc (length d)) q = d @ ''/'')"

definition fs_rmdir_recursive :: "filesystem \<Rightarrow> string \<Rightarrow> exn + filesystem" where
  "fs_rmdir_recursive fs p =
     (case fs p of
        None \<Rightarrow> Inl (ErrnoException ENOENT)
      | Some (File _) \<Rightarrow> Inl (ErrnoException ENOTDIR)
      | Some Directory \<Rightarrow> Inr (\<lambda>q. if inside p q then None else fs q))"

section \<open>Encodings\<close>

text \<open>
  \<open>Buffer.from(s, 'utf8')\<close> and \<open>buf.toString('utf8')\<close>. The encoder joins a surrogate
  pair into one code point and writes U+FFFD for a lone surrogate; the decoder replaces
  every ill-formed sequence by U+FFFD and splits a code point above U+FFFF into a pair.
\<close>

datatype FileEncoding = utf8 | utf16le | latin1 | base64 | hex | ascii | binary

definition is_high :: "nat \<Rightarrow> bool" where
  "is_high u = (0xD800 \<le> u \<and> u \<le> 0xDBFF)"

definition is_low :: "nat \<Rightarrow> bool" where
  "is_low u = (0xDC00 \<le> u \<and> u \<le> 0xDFFF)"

definition encode_cp :: "nat \<Rightarrow> buffer" where
  "encode_cp c =
     (if c < 0x80 then [c]
      else if c < 0x800 then [0xC0 + c div 64, 0x80 + c mod 64]
      else if c < 0x10000 then [0xE0 + c div 4096, 0x80 + (c div 64) mod 64, 0x80 + c mod 64]
      else [0xF0 + c div 262144, 0x80 + (c div 4096) mod 64, 0x80 + (c div 64) mod 64,
            0x80 + c mod 64])"

definition pair_cp :: "nat \<Rightarrow> nat \<Rightarrow> nat" where
  "pair_cp h l = 0x10000 + (h - 0xD800) * 1024 + (l - 0xDC00)"

fun utf8_encode :: "ustring \<Rightarrow> buffer" where
  "utf8_encode [] = []"
| "utf8_encode [u] = (if is_high u \<or> is_low u then [0xEF, 0xBF, 0xBD] else encode_cp u)"
| "utf8_encode (u # l # us) =
     (if is_high u \<and> is_low l then encode_cp (pair_cp u l) @ utf8_encode us
      else if is_high u \<or> is_low u then [0xEF, 0xBF, 0xBD] @ utf8_encode (l # us)
      else encode_cp u @ utf8_encode (l # us))"

definition is_cont :: "nat \<Rightarrow> bool" where
  "is_cont b = (0x80 \<le> b \<and> b \<le> 0xBF)"

definition units_of_cp :: "nat \<Rightarrow> ustring" where
  "units_of_cp c =
     (if c < 0x10000 then [c]
      else [0xD800 + (c - 0x10000) div 1024, 0xDC00 + (c - 0x10000) mod 1024])"

text \<open>
  One step of the decoder: the code units for the sequence that starts with byte \<open>b\<close>,
  and how many of the bytes after \<open>b\<close> it consumed.
\<close>

definition decode_step :: "nat \<Rightarrow> buffer \<Rightarrow> ustring \<times> nat" where
  "decode_step b bs =
     (if b < 0x80 then ([b], 0)
      else if 0xC2 \<le> b \<and> b \<le> 0xDF then
        (case bs of
           c1 # _ \<Rightarrow> if is_cont c1 then ([(b - 0xC0) * 64 + (c1 - 0x80)], 1) else ([0xFFFD], 0)
         | [] \<Rightarrow> ([0xFFFD], 0))
      else if 0xE0 \<le> b \<and> b \<le> 0xEF then
        (case bs of
           c1 # c2 # _ \<Rightarrow>
             if (if b = 0xE0 then 0xA0 else 0x80) \<le> c1 \<and> c1 \<le> (if b = 0xED then 0x9F else 0xBF)
             then (if is_cont c2
                   then ([(b - 0xE0) * 4096 + (c1 - 0x80) * 64 + (c2 - 0x80)], 2)
                   else ([0xFFFD], 1))
             else ([0xFFFD], 0)
         | [c1] \<Rightarrow>
             if (if b = 0xE0 then 0xA0 else 0x80) \<le> c1 \<and> c1 \<le> (if b = 0xED then 0x9F else 0xBF)
             then ([0xFFFD], 1) else ([0xFFFD], 0)
         | [] \<Rightarrow> ([0xFFFD], 0))
      else if 0xF0 \<le> b \<and> b \<le> 0xF4 then
        (case bs of
           c1 # c2 # c3 # _ \<Rightarrow>
             if (if b = 0xF0 then 0x90 else 0x80) \<le> c1 \<and> c1 \<le> (if b = 0xF4 then 0x8F else 0xBF)
             then (if is_cont c2
                   then (if is_cont c3
                         then (units_of_cp ((b - 0xF0) * 262144 + (c1 - 0x80) * 4096
                                 + (c2 - 0x80) * 64 + (c3 - 0x80)), 3)
                         else ([0xFFFD], 2))
                   else ([0xFFFD], 1))
             else ([0xFFFD], 0)
         | [c1, c2] \<Rightarrow>
             if (if b = 0xF0 then 0x90 else 0x80) \<le> c1 \<and> c1 \<le> (if b = 0xF4 then 0x8F else 0xBF)
             then (if is_cont c2 then ([0xFFFD], 2) else ([0xFFFD], 1))
             else ([0xFFFD], 0)
         | [c1] \<Rightarrow>
             if (if b = 0xF0 then 0x90 else 0x80) \<le> c1 \<and> c1 \<le> (if b = 0xF4 then 0x8F else 0xBF)
             then ([0xFFFD], 1) else ([0xFFFD], 0)
         | [] \<Rightarrow> ([0xFFFD], 0))
      else ([0xFFFD], 0))"

function utf8_decode :: "buffer \<Rightarrow> ustring" where
  "utf8_decode [] = []"
| "utf8_decode (b # bs) = fst (decode_step b bs) @ utf8_decode (drop (snd (decode_step b bs)) bs)"
  by pat_completeness auto
termination
  by (relation "measure length") auto

text \<open>
  The other encodings of Node are not part of the repository; they are a parameter
  (\<open>encodeWith\<close> for \<open>Buffer.from\<close>, \<open>decodeWith\<close> for \<open>toString\<close>).
\<close>

record codecs =
  encodeWith :: "FileEncoding \<Rightarrow> ustring \<Rightarrow> buffer"
  decodeWith :: "FileEncoding \<Rightarrow> buffer \<Rightarrow> ustring"

definition buffer_from :: "codecs \<Rightarrow> ustring \<Rightarrow> FileEncoding \<Rightarrow> buffer" where
  "buffer_from N s enc = (if enc = utf8 then utf8_encode s else encodeWith N enc s)"

definition buffer_toString :: "codecs \<Rightarrow> buffer \<Rightarrow> FileEncoding \<Rightarrow> ustring" where
  "buffer_toString N b enc = (if enc = utf8 then utf8_decode b else decodeWith N enc b)"

section \<open>FileOperations\<close>

text \<open>
  Each operation takes the raw arguments of the request (an optional argument is an
  \<open>option\<close>), validates them as its zod schema does, and returns the envelope; an
  operation that writes also returns the file system it leaves.
\<close>

datatype content = Str ustring | Buf buffer

record ReadData =
  rd_content :: content
  rd_encoding :: FileEncoding
  rd_size :: nat

text \<open>
  \<open>ReadFileSchema\<close>: a non-empty path, \<open>encoding\<close> defaulting to utf8, an integer
  \<open>offset \<ge> 0\<close> and an integer \<open>limit \<ge> 1\<close>.
\<close>

definition ReadFileSchema_parse ::
  "string \<Rightarrow> FileEncoding option \<Rightarrow> int option \<Rightarrow> int option
    \<Rightarrow> exn + (string \<times> FileEncoding \<times> nat option \<times> nat option)" where
  "ReadFileSchema_parse p enc offset limit =
     (if p = [] \<or> (case offset of Some n \<Rightarrow> n < 0 | None \<Rightarrow> False)
         \<or> (case limit of Some n \<Rightarrow> n < 1 | None \<Rightarrow> False)
      then Inl ZodError
      else Inr (p, (case enc of None \<Rightarrow> utf8 | Some e \<Rightarrow> e), map_option nat offset,
                map_option nat limit))"

definition readFile ::
  "codecs \<Rightarrow> filesystem \<Rightarrow> string \<Rightarrow> FileEncoding option \<Rightarrow> int option \<Rightarrow> int option
    \<Rightarrow> ReadData FileOperationResult" where
  "readFile N fs p enc0 offset0 limit0 =
     (case ReadFileSchema_parse p enc0 offset0 limit0 of
        Inl e \<Rightarrow> failed p (Message e)
      | Inr (path, encoding, offset, limit) \<Rightarrow>
          (case fs_access fs path of
             Inl e \<Rightarrow> failed p (Message e)
           | Inr _ \<Rightarrow>
               (case fs_readFile fs path of
                  Inl e \<Rightarrow> failed p (Message e)
                | Inr buffer \<Rightarrow>
                    let content =
                      (if offset \<noteq> None \<or> limit \<noteq> None then
                         let start = (case offset of None \<Rightarrow> 0 | Some n \<Rightarrow> n);
                             end = (case limit of
                                      None \<Rightarrow> length buffer
                                    | Some l \<Rightarrow> if l \<noteq> 0 then start + l else length buffer);
                             sl = slice buffer start end
                         in if encoding = utf8 then Str (buffer_toString N sl encoding) else Buf sl
                       else Str (buffer_toString N buffer encoding))
                    in ok path (Some \<lparr>rd_content = content, rd_encoding = encoding,
                         rd_size = (case content of
                                      Buf b \<Rightarrow> length b
                                    | Str s \<Rightarrow> length (buffer_from N s encoding))\<rparr>))))"

record WriteData =
  wd_size :: nat
  wd_encoding :: FileEncoding
  wd_created :: bool

definition WriteFileSchema_parse ::
  "string \<Rightarrow> FileEncoding option \<Rightarrow> bool option \<Rightarrow> bool option
    \<Rightarrow> exn + (string \<times> FileEncoding \<times> bool \<times> bool)" where
  "WriteFileSchema_parse p enc createDirs append' =
     (if p = [] then Inl ZodError
      else Inr (p, (case enc of None \<Rightarrow> utf8 | Some e \<Rightarrow> e),
                (case createDirs of None \<Rightarrow> False | Some b \<Rightarrow> b),
                (case append' of None \<Rightarrow> False | Some b \<Rightarrow> b)))"

definition writeFile ::
  "codecs \<Rightarrow> filesystem \<Rightarrow> string \<Rightarrow> ustring \<Rightarrow> FileEncoding option \<Rightarrow> bool option
    \<Rightarrow> bool option \<Rightarrow> WriteData FileOperationResult \<times> filesystem" where
  "writeFile N fs p content enc0 createDirs0 append0 =
     (case WriteFileSchema_parse p enc0 createDirs0 append0 of
        Inl e \<Rightarrow> (failed p (Message e), fs)
      | Inr (path, encoding, createDirs, append') \<Rightarrow>
          (case (if createDirs then fs_mkdir_recursive fs (dirname path) else Inr fs) of
             Inl e \<Rightarrow> (failed p (Message e), fs)
           | Inr fs1 \<Rightarrow>
               (case fs_writeFile fs1 path (buffer_from N content encoding)
                       (if append' then FlagA else FlagW) of
                  Inl e \<Rightarrow> (failed p (Message e), fs1)
                | Inr fs2 \<Rightarrow>
                    (ok path (Some \<lparr>wd_size = length (buffer_from N content encoding),
                        wd_encoding = encoding, wd_created = (\<not> append')\<rparr>), fs2))))"

datatype deleted_type = TypeDirectory | TypeFile

record DeleteData =
  dd_type :: deleted_type
  dd_size :: nat

definition DeleteFileSchema_parse ::
  "string \<Rightarrow> bool option \<Rightarrow> bool option \<Rightarrow> exn + (string \<times> bool \<times> bool)" where
  "DeleteFileSchema_parse p recursive force =
     (if p = [] then Inl ZodError
      else Inr (p, (case recursive of None \<Rightarrow> False | Some b \<Rightarrow> b),
                (case force of None \<Rightarrow> False | Some b \<Rightarrow> b)))"

definition deleteFile ::
  "filesystem \<Rightarrow> string \<Rightarrow> bool option \<Rightarrow> bool option
    \<Rightarrow> DeleteData FileOperationResult \<times> filesystem" where
  "deleteFile fs p recursive0 force0 =
     (case DeleteFileSchema_parse p recursive0 force0 of
        Inl e \<Rightarrow> (failed p (Message e), fs)
      | Inr (path, recursive, force) \<Rightarrow>
          (case fs_access fs path of
             Inl _ \<Rightarrow>
               if \<not> force then (failed path (Text ''Path not found''), fs)
               else (ok path None, fs)
           | Inr _ \<Rightarrow>
               (case fs_stat fs path of
                  Inl e \<Rightarrow> (failed p (Message e), fs)
                | Inr stats \<Rightarrow>
                    if isDirectory stats then
                      (if \<not> recursive
                       then (failed path (Text ''Directory requires recursive deletion''), fs)
                       else (case fs_rmdir_recursive fs path of
                               Inl e \<Rightarrow> (failed p (Message e), fs)
                             | Inr fs' \<Rightarrow>
                                 (ok path (Some \<lparr>dd_type = TypeDirectory, dd_size = st_size stats\<rparr>),
                                  fs')))
                    else (case fs_unlink fs path of
                            Inl e \<Rightarrow> (failed p (Message e), fs)
                          | Inr fs' \<Rightarrow>
                              (ok path (Some \<lparr>dd_type = TypeFile, dd_size = st_size stats\<rparr>),
                               fs')))))"

section \<open>AdvancedOperations: compareFiles\<close>

datatype diff_type = added | removed | modified

record difference =
  d_line :: nat
  d_type :: diff_type
  d_content :: ustring

text \<open>\<open>lines[i] || ''\<close>: the line at \<open>i\<close>, and the empty string past the end.\<close>

definition line_or_empty :: "ustring list \<Rightarrow> nat \<Rightarrow> ustring" where
  "line_or_empty ls i = (if i < length ls then ls ! i else [])"

text \<open>The \<open>for\<close> loop of compareFiles, from index \<open>i\<close> on.\<close>

function compare_loop ::
  "ustring list \<Rightarrow> ustring list \<Rightarrow> nat \<Rightarrow> nat \<Rightarrow> difference list \<Rightarrow> difference list" where
  "compare_loop lines1 lines2 maxLines i diffs =
     (if i < maxLines then
        (let line1 = line_or_empty lines1 i; line2 = line_or_empty lines2 i
         in compare_loop lines1 lines2 maxLines (Suc i)
              (if line1 \<noteq> line2 then
                 (if i \<ge> length lines1 then
                    diffs @ [\<lparr>d_line = i + 1, d_type = added, d_content = line2\<rparr>]
                  else if i \<ge> length lines2 then
                    diffs @ [\<lparr>d_line = i + 1, d_type = removed, d_content = line1\<rparr>]
                  else
                    diffs @ [\<lparr>d_line = i + 1, d_type = modified,
                       d_content = lit ''- '' @ line1 @ 10 # lit ''+ '' @ line2\<rparr>])
               else diffs))
      else diffs)"
  by pat_completeness auto
termination
  by (relation "measure (\<lambda>(lines1, lines2, maxLines, i, diffs). maxLines - i)") auto

declare compare_loop.simps [simp del]

record CompareData =
  identical :: bool
  differences :: "difference list"
  totalDifferences :: nat
  file1_lines :: nat
  file1_size :: nat
  file2_lines :: nat
  file2_size :: nat
  opt_ignoreWhitespace :: bool
  opt_ignoreCase :: bool

text \<open>
  The two optional normalizations. \<open>toLowerCase\<close> is the runtime's Unicode case mapping,
  a parameter.
\<close>

definition processed :: "(ustring \<Rightarrow> ustring) \<Rightarrow> bool \<Rightarrow> bool \<Rightarrow> ustring \<Rightarrow> ustring" where
  "processed toLowerCase ignoreWhitespace ignoreCase content =
     (let c = (if ignoreWhitespace then trim (replace_spaces content) else content)
      in if ignoreCase then toLowerCase c else c)"

definition compareFiles ::
  "(ustring \<Rightarrow> ustring) \<Rightarrow> filesystem \<Rightarrow> string \<Rightarrow> string \<Rightarrow> bool option \<Rightarrow> bool option
    \<Rightarrow> CompareData FileOperationResult" where
  "compareFiles toLowerCase fs file1 file2 ignoreWhitespace0 ignoreCase0 =
     (if file1 = [] \<or> file2 = [] then failed file1 (Message ZodError)
      else
        let ignoreWhitespace = (case ignoreWhitespace0 of None \<Rightarrow> False | Some b \<Rightarrow> b);
            ignoreCase = (case ignoreCase0 of None \<Rightarrow> False | Some b \<Rightarrow> b)
        in case fs_access fs file1 of
             Inl e \<Rightarrow> failed file1 (Message e)
           | Inr _ \<Rightarrow>
          (case fs_access fs file2 of
             Inl e \<Rightarrow> failed file1 (Message e)
           | Inr _ \<Rightarrow>
          (case fs_readFile fs file1 of
             Inl e \<Rightarrow> failed file1 (Message e)
           | Inr buffer1 \<Rightarrow>
          (case fs_readFile fs file2 of
             Inl e \<Rightarrow> failed file1 (Message e)
           | Inr buffer2 \<Rightarrow>
               let content1 = utf8_decode buffer1;
                   content2 = utf8_decode buffer2;
                   lines1 = split_lines (processed toLowerCase ignoreWhitespace ignoreCase content1);
                   lines2 = split_lines (processed toLowerCase ignoreWhitespace ignoreCase content2);
                   maxLines = max (length lines1) (length lines2);
                   diffs = compare_loop lines1 lines2 maxLines 0 []
               in ok file1 (Some \<lparr>identical = (length diffs = 0), differences = diffs,
                    totalDifferences = length diffs,
                    file1_lines = length lines1, file1_size = length content1,
                    file2_lines = length lines2, file2_size = length content2,
                    opt_ignoreWhitespace = ignoreWhitespace, opt_ignoreCase = ignoreCase\<rparr>)))))"

section \<open>AdvancedOperations: searchInFiles\<close>

text \<open>
  A compiled regular expression is its matcher: \<open>m s i = Some n\<close> when the pattern
  matches \<open>s\<close> at index \<open>i\<close> over \<open>n\<close> code units. \<open>regex_exec\<close> is
  \<open>RegExp.prototype.exec\<close> of a global expression: the first index from \<open>lastIndex\<close> on
  (up to the end of the string) at which the matcher succeeds; the caller moves
  \<open>lastIndex\<close> to the end of the match, and \<open>exec\<close> does not move it past an empty
  match.
\<close>

type_synonym matcher = "ustring \<Rightarrow> nat \<Rightarrow> nat option"

definition regex_exec :: "matcher \<Rightarrow> ustring \<Rightarrow> nat \<Rightarrow> (nat \<times> ustring) option" where
  "regex_exec m s lastIndex =
     (case find (\<lambda>i. m s i \<noteq> None) [lastIndex..<Suc (length s)] of
        None \<Rightarrow> None
      | Some i \<Rightarrow> (case m s i of None \<Rightarrow> None | Some n \<Rightarrow> Some (i, take n (drop i s))))"

record Match =
  m_line :: nat
  m_column :: nat
  m_text :: ustring
  m_context :: ustring

text \<open>
  The \<open>while ((match = regex.exec(line)) !== null)\<close> loop on line \<open>i\<close>. It does not
  return when the expression matches the empty string: the value is then \<open>None\<close>.
\<close>

partial_function (option) exec_loop ::
  "matcher \<Rightarrow> ustring list \<Rightarrow> nat \<Rightarrow> nat \<Rightarrow> nat \<Rightarrow> Match list \<Rightarrow> Match list option" where
  "exec_loop m lines contextLines i lastIndex matches =
     (case regex_exec m (lines ! i) lastIndex of
        None \<Rightarrow> Some matches
      | Some (index, txt) \<Rightarrow>
          (let startLine = max 0 (i - contextLines);
               endLine = min (length lines - 1) (i + contextLines);
               ctx = join_lines (slice lines startLine (endLine + 1))
           in exec_loop m lines contextLines i (index + length txt)
                (matches @ [\<lparr>m_line = i + 1, m_column = index + 1, m_text = txt,
                              m_context = ctx\<rparr>])))"

text \<open>The \<open>for\<close> loop over the lines of one file; an empty line is skipped.\<close>

function scan_lines ::
  "matcher \<Rightarrow> ustring list \<Rightarrow> nat \<Rightarrow> nat \<Rightarrow> Match list \<Rightarrow> Match list option" where
  "scan_lines m lines contextLines i matches =
     (if i < length lines then
        (if lines ! i = [] then scan_lines m lines contextLines (Suc i) matches
         else (case exec_loop m lines contextLines i 0 matches of
                 None \<Rightarrow> None
               | Some matches' \<Rightarrow> scan_lines m lines contextLines (Suc i) matches'))
      else Some matches)"
  by pat_completeness auto
termination
  by (relation "measure (\<lambda>(m, lines, contextLines, i, matches). length lines - i)") auto

declare scan_lines.simps [simp del]

record SearchResult =
  sr_path :: string
  sr_matches :: "Match list"

text \<open>
  The library calls of searchInFiles: \<open>glob\<close> (working directory, pattern, \<open>dot\<close>,
  \<open>caseSensitiveMatch\<close>), \<open>new RegExp(source, flags)\<close> (the flag \<open>i\<close> or not; \<open>None\<close>
  is a SyntaxError), and \<open>resolve\<close> and \<open>join\<close> of the path module. The code units 92, 98
  are the word boundary \<open>\b\<close> that wholeWord puts around the pattern.
\<close>

record library =
  glob :: "filesystem \<Rightarrow> string \<Rightarrow> string \<Rightarrow> bool \<Rightarrow> bool \<Rightarrow> string list"
  RegExp :: "ustring \<Rightarrow> bool \<Rightarrow> matcher option"
  resolve :: "string \<Rightarrow> string"
  join :: "string \<Rightarrow> string \<Rightarrow> string"

text \<open>
  The loop over the globbed files. A path that is not a regular file is skipped; the
  \<open>fileInfo\<close> of a result is not modelled.
\<close>

fun search_files ::
  "library \<Rightarrow> filesystem \<Rightarrow> matcher \<Rightarrow> nat \<Rightarrow> string \<Rightarrow> string list \<Rightarrow> SearchResult list
    \<Rightarrow> SearchResult list option" where
  "search_files L fs m contextLines resolvedDir [] results = Some results"
| "search_files L fs m contextLines resolvedDir (f # files) results =
     (let fullPath = join L resolvedDir f
      in case fs fullPath of
           Some (File bs) \<Rightarrow>
             (case scan_lines m (split_lines (utf8_decode bs)) contextLines 0 [] of
                None \<Rightarrow> None
              | Some matches \<Rightarrow>
                  search_files L fs m contextLines resolvedDir files
                    (if length matches > 0
                     then results @ [\<lparr>sr_path = fullPath, sr_matches = matches\<rparr>]
                     else results))
         | _ \<Rightarrow> search_files L fs m contextLines resolvedDir files results)"

record SearchData =
  sd_results :: "SearchResult list"
  sd_totalMatches :: nat
  sd_pattern :: ustring
  sd_directory :: string

definition SearchInFilesSchema_parse ::
  "ustring \<Rightarrow> string option \<Rightarrow> string option \<Rightarrow> int option \<Rightarrow> bool option \<Rightarrow> bool option
    \<Rightarrow> bool option \<Rightarrow> int option
    \<Rightarrow> exn + (ustring \<times> string \<times> string option \<times> nat option \<times> bool \<times> bool \<times> bool \<times> nat)" where
  "SearchInFilesSchema_parse pattern dir filePattern maxDepth includeHidden caseSensitive
      wholeWord contextLines =
     (if pattern = [] \<or> (case maxDepth of Some n \<Rightarrow> n < 1 | None \<Rightarrow> False)
         \<or> (case contextLines of Some n \<Rightarrow> n < 0 | None \<Rightarrow> False)
      then Inl ZodError
      else Inr (pattern, (case dir of None \<Rightarrow> ''.'' | Some d \<Rightarrow> d), filePattern,
                map_option nat maxDepth,
                (case includeHidden of None \<Rightarrow> False | Some b \<Rightarrow> b),
                (case caseSensitive of None \<Rightarrow> False | Some b \<Rightarrow> b),
                (case wholeWord of None \<Rightarrow> False | Some b \<Rightarrow> b),
                (case contextLines of None \<Rightarrow> 2 | Some n \<Rightarrow> nat n)))"

text \<open>The result is \<open>None\<close> when the call does not return.\<close>

definition searchInFiles ::
  "library \<Rightarrow> filesystem \<Rightarrow> ustring \<Rightarrow> string option \<Rightarrow> string option \<Rightarrow> int option
    \<Rightarrow> bool option \<Rightarrow> bool option \<Rightarrow> bool option \<Rightarrow> int option
    \<Rightarrow> SearchData FileOperationResult option" where
  "searchInFiles L fs pattern0 dir0 filePattern0 maxDepth0 includeHidden0 caseSensitive0
      wholeWord0 contextLines0 =
     (let catch_path = (case dir0 of None \<Rightarrow> ''.'' | Some d \<Rightarrow> if d = [] then ''.'' else d)
      in case SearchInFilesSchema_parse pattern0 dir0 filePattern0 maxDepth0 includeHidden0
                caseSensitive0 wholeWord0 contextLines0 of
           Inl e \<Rightarrow> Some (failed catch_path (Message e))
         | Inr (pattern, dir, filePattern, maxDepth, includeHidden, caseSensitive, wholeWord,
                contextLines) \<Rightarrow>
             let resolvedDir = resolve L dir;
                 searchPattern = (case filePattern of
                                    None \<Rightarrow> ''**/*''
                                  | Some fp \<Rightarrow> if fp = [] then ''**/*'' else fp);
                 globPattern = (case maxDepth of
                                  None \<Rightarrow> searchPattern
                                | Some d \<Rightarrow>
                                    join L searchPattern
                                      (if d = 1 then [] else concat (replicate (d - 1) ''/*'')));
                 files = glob L fs resolvedDir
                           (if globPattern = [] then searchPattern else globPattern)
                           includeHidden caseSensitive;
                 regexPattern = (if wholeWord then [92, 98] @ pattern @ [92, 98]
                                 else pattern)
             in case RegExp L regexPattern (\<not> caseSensitive) of
                  None \<Rightarrow> Some (failed catch_path (Message SyntaxError))
                | Some regex \<Rightarrow>
                    (case search_files L fs regex contextLines resolvedDir files [] of
                       None \<Rightarrow> None
                     | Some results \<Rightarrow>
                         Some (ok dir (Some \<lparr>sd_results = results,
                           sd_totalMatches = sum_list (map (\<lambda>r. length (sr_matches r)) results),
                           sd_pattern = pattern, sd_directory = resolvedDir\<rparr>))))"

section \<open>AdvancedOperations: the watcher registry\<close>

datatype event_type = add | change | unlink | addDir | unlinkDir

record FileWatchEvent =
  ev_type :: event_type
  ev_path :: string
  ev_stats :: "Stats option"

text \<open>
  A watcher object of the notification library, with the options it was created with,
  whether it has been closed, and \<open>w_events\<close>: the array \<open>events\<close> of the watchFile call
  that created it, which only the handlers registered in that call hold.
\<close>

record FSWatcher =
  w_path :: string
  w_recursive :: bool
  w_ignoreInitial :: bool
  w_ignored :: "string list option"
  w_closed :: bool
  w_events :: "FileWatchEvent list"

text \<open>
  \<open>watchers\<close> is the static map \<open>AdvancedOperations.watchers\<close>: the path string to a
  reference, the index of the watcher in \<open>heap\<close>, which holds every watcher created.
\<close>

record watch_state =
  watchers :: "string \<rightharpoonup> nat"
  heap :: "FSWatcher list"

definition stopWatching :: "watch_state \<Rightarrow> string \<Rightarrow> bool FileOperationResult \<times> watch_state" where
  "stopWatching st p =
     (case watchers st p of
        Some w \<Rightarrow>
          (ok p (Some False),
           st\<lparr>heap := (heap st)[w := (heap st ! w)\<lparr>w_closed := True\<rparr>],
              watchers := (watchers st)(p := None)\<rparr>)
      | None \<Rightarrow> (failed p (Text ''Watcher not found''), st))"

record WatchData =
  watching :: bool
  wa_recursive :: bool
  wa_ignoreInitial :: bool
  wa_events :: "FileWatchEvent list"

definition watchFile ::
  "watch_state \<Rightarrow> filesystem \<Rightarrow> string \<Rightarrow> bool option \<Rightarrow> bool option \<Rightarrow> string list option
    \<Rightarrow> WatchData FileOperationResult \<times> watch_state" where
  "watchFile st fs p recursive0 ignoreInitial0 ignored =
     (if p = [] then (failed p (Message ZodError), st)
      else
        let recursive = (case recursive0 of None \<Rightarrow> False | Some b \<Rightarrow> b);
            ignoreInitial = (case ignoreInitial0 of None \<Rightarrow> True | Some b \<Rightarrow> b)
        in case fs_access fs p of
             Inl e \<Rightarrow> (failed p (Message e), st)
           | Inr _ \<Rightarrow>
               let st1 = (if watchers st p \<noteq> None then snd (stopWatching st p) else st);
                   watcher = length (heap st1);
                   events = [];
                   st2 = st1\<lparr>heap := heap st1 @ [\<lparr>w_path = p, w_recursive = recursive,
                                 w_ignoreInitial = ignoreInitial, w_ignored = ignored,
                                 w_closed = False, w_events = events\<rparr>],
                              watchers := (watchers st1)(p \<mapsto> watcher)\<rparr>
               in (ok p (Some \<lparr>watching = True, wa_recursive = recursive,
                      wa_ignoreInitial = ignoreInitial, wa_events = slice_last 10 events\<rparr>),
                   st2))"

text \<open>
  The library delivers an event to an open watcher: the handler registered by watchFile
  pushes it onto the call's \<open>events\<close> array.
\<close>

definition emit :: "nat \<Rightarrow> FileWatchEvent \<Rightarrow> watch_state \<Rightarrow> watch_state" where
  "emit w ev st =
     (if w < length (heap st) \<and> \<not> w_closed (heap st ! w)
      then st\<lparr>heap := (heap st)[w := (heap st ! w)\<lparr>w_events := w_events (heap st ! w) @ [ev]\<rparr>]\<rparr>
      else st)"

definition cleanup :: "watch_state \<Rightarrow> watch_state" where
  "cleanup st =
     st\<lparr>heap := map (\<lambda>(k, w). if k \<in> ran (watchers st) then w\<lparr>w_closed := True\<rparr> else w)
                  (zip [0..<length (heap st)] (heap st)),
        watchers := Map.empty\<rparr>"

text \<open>The active registrations for a path: the open watchers created for it.\<close>

definition active :: "watch_state \<Rightarrow> string \<Rightarrow> nat list" where
  "active st p = filter (\<lambda>k. w_path (heap st ! k) = p \<and> \<not> w_closed (heap st ! k))
                   [0..<length (heap st)]"

section \<open>The server: cache and resources\<close>

text \<open>
  The payload of a resource is the object the handler stringifies: its subject (the
  \<open>path\<close>, \<open>query\<close> or \<open>type\<close> of the request), its body, the \<open>cached\<close> flag and the
  \<open>timestamp\<close>. The bodies that the operation sets compute carry the operation's answer
  as a value of the parameter type.
\<close>

datatype 'v body =
    Metadata 'v
  | Contents 'v
  | Results "SearchData FileOperationResult"
  | WatchStatus (isWatching: bool) (lastEvents: "FileWatchEvent list")
  | RecentFiles (files: "string list") (count: nat)
  | Structure 'v
  | Preview 'v

record 'v payload =
  subject :: string
  body :: "'v body"
  cached :: bool
  timestamp :: int

record 'v CacheEntry =
  ce_data :: "'v payload"
  ce_timestamp :: int
  ce_ttl :: int

type_synonym 'v cache = "string \<rightharpoonup> 'v CacheEntry"

definition DEFAULT_CACHE_TTL :: int where
  "DEFAULT_CACHE_TTL = 5 * 60 * 1000"

definition FILE_WATCH_CACHE_TTL :: int where
  "FILE_WATCH_CACHE_TTL = 30 * 1000"

text \<open>
  What the handler calls outside the repository's modelled code: \<open>decodeURIComponent\<close>
  (\<open>None\<close> is a URIError), \<open>JSON.stringify\<close> of a string, and the four views computed by
  getFileInfo, listDirectory, getDirectoryStructure and getFilePreview.
\<close>

record 'v views =
  decodeURIComponent :: "string \<Rightarrow> string option"
  stringify :: "string \<Rightarrow> string"
  getFileInfo :: "filesystem \<Rightarrow> string \<Rightarrow> 'v"
  listDirectory :: "filesystem \<Rightarrow> string \<Rightarrow> 'v"
  getDirectoryStructure :: "filesystem \<Rightarrow> string \<Rightarrow> 'v"
  getFilePreview :: "filesystem \<Rightarrow> string \<Rightarrow> 'v"

text \<open>\<open>type:JSON.stringify({field: value})\<close>.\<close>

definition getCacheKey :: "'v views \<Rightarrow> string \<Rightarrow> string \<Rightarrow> string \<Rightarrow> string" where
  "getCacheKey V type field val =
     type @ '':{'' @ stringify V field @ '':'' @ stringify V val @ ''}''"

text \<open>
  \<open>getCachedData\<close> returns the cached object or \<open>None\<close> for \<open>null\<close>, and the cache it
  leaves: an entry older than its ttl is deleted.
\<close>

definition getCachedData :: "'v cache \<Rightarrow> int \<Rightarrow> string \<Rightarrow> 'v payload option \<times> 'v cache" where
  "getCachedData c now key =
     (case c key of
        None \<Rightarrow> (None, c)
      | Some entry \<Rightarrow>
          if now - ce_timestamp entry > ce_ttl entry then (None, c(key := None))
          else (Some (ce_data entry), c))"

definition setCachedData :: "'v cache \<Rightarrow> int \<Rightarrow> string \<Rightarrow> 'v payload \<Rightarrow> int \<Rightarrow> 'v cache" where
  "setCachedData c now key d ttl = c(key \<mapsto> \<lparr>ce_data = d, ce_timestamp = now, ce_ttl = ttl\<rparr>)"

text \<open>
  The clock is read up to three times while a request is served: by the lookup, for
  the payload's timestamp, and by the store.
\<close>

record ticks =
  t_lookup :: int
  t_stamp :: int
  t_store :: int

text \<open>
  The pattern every resource branch follows. \<open>fresh\<close> is the body computed on a miss
  (\<open>None\<close> when that computation does not return). On a hit the handler sets
  \<open>cached\<close> on the object it got from the cache, which is the object the entry holds.
\<close>

definition fetch ::
  "'v cache \<Rightarrow> ticks \<Rightarrow> string \<Rightarrow> string \<Rightarrow> 'v body option \<Rightarrow> int \<Rightarrow> ('v payload \<times> 'v cache) option" where
  "fetch c t key subj fresh ttl =
     (case getCachedData c (t_lookup t) key of
        (None, c1) \<Rightarrow>
          (case fresh of
             None \<Rightarrow> None
           | Some b \<Rightarrow>
               let d = \<lparr>subject = subj, body = b, cached = False, timestamp = t_stamp t\<rparr>
               in Some (d, setCachedData c1 (t_store t) key d ttl))
      | (Some d, c1) \<Rightarrow>
          let d' = d\<lparr>cached := True\<rparr>
          in Some (d', c1(key := map_option (\<lambda>e. e\<lparr>ce_data := d'\<rparr>) (c1 key))))"

definition startsWith :: "string \<Rightarrow> string \<Rightarrow> bool" where
  "startsWith s p = (take (length p) s = p)"

text \<open>\<open>s.replace(p, "")\<close>: the first occurrence of \<open>p\<close> is cut out.\<close>

fun replace_first :: "string \<Rightarrow> string \<Rightarrow> string" where
  "replace_first [] p = []"
| "replace_first (c # cs) p =
     (if startsWith (c # cs) p then drop (length p) (c # cs) else c # replace_first cs p)"

record 'v world =
  the_cache :: "'v cache"
  the_fs :: filesystem
  the_watch :: watch_state

text \<open>
  One branch of the handler: the argument is cut from the URI and decoded (the recent
  branch does not decode), the key is built, and the payload is fetched.
\<close>

definition branch ::
  "'v views \<Rightarrow> 'v world \<Rightarrow> ticks \<Rightarrow> string \<Rightarrow> string \<Rightarrow> bool \<Rightarrow> string \<Rightarrow> string
    \<Rightarrow> (string \<Rightarrow> 'v body option) \<Rightarrow> int \<Rightarrow> ((exn + 'v payload) \<times> 'v world) option" where
  "branch V w t uri pfx decode type field fresh ttl =
     (case (if decode then decodeURIComponent V (replace_first uri pfx)
            else Some (replace_first uri pfx)) of
        None \<Rightarrow> Some (Inl URIError, w)
      | Some arg \<Rightarrow>
          (case fetch (the_cache w) t (getCacheKey V type field arg) arg (fresh arg) ttl of
             None \<Rightarrow> None
           | Some (d, c) \<Rightarrow> Some (Inr d, w\<lparr>the_cache := c\<rparr>)))"

text \<open>
  The ReadResource handler: the payload it answers with or the error it throws, and the
  state it leaves; \<open>None\<close> when it does not return.
\<close>

definition read_resource ::
  "'v views \<Rightarrow> library \<Rightarrow> 'v world \<Rightarrow> ticks \<Rightarrow> string
    \<Rightarrow> ((exn + 'v payload) \<times> 'v world) option" where
  "read_resource V L w t uri =
     (if startsWith uri ''file://metadata/'' then
        branch V w t uri ''file://metadata/'' True ''metadata'' ''path''
          (\<lambda>p. Some (Metadata (getFileInfo V (the_fs w) p))) DEFAULT_CACHE_TTL
      else if startsWith uri ''file://directory/'' then
        branch V w t uri ''file://directory/'' True ''directory'' ''path''
          (\<lambda>p. Some (Contents (listDirectory V (the_fs w) p))) DEFAULT_CACHE_TTL
      else if startsWith uri ''file://search/cache/'' then
        branch V w t uri ''file://search/cache/'' True ''search_cache'' ''query''
          (\<lambda>q. map_option Results
                 (searchInFiles L (the_fs w) (lit q) (Some ''/'') None None (Some False)
                    (Some False) (Some False) (Some 2))) DEFAULT_CACHE_TTL
      else if startsWith uri ''file://watch/status/'' then
        branch V w t uri ''file://watch/status/'' True ''watch_status'' ''path''
          (\<lambda>p. Some (WatchStatus False [])) FILE_WATCH_CACHE_TTL
      else if startsWith uri ''file://recent/'' then
        branch V w t uri ''file://recent/'' False ''recent_files'' ''type''
          (\<lambda>ty. Some (RecentFiles [] 0)) DEFAULT_CACHE_TTL
      else if startsWith uri ''file://structure/'' then
        branch V w t uri ''file://structure/'' True ''directory_structure'' ''path''
          (\<lambda>p. Some (Structure (getDirectoryStructure V (the_fs w) p))) DEFAULT_CACHE_TTL
      else if startsWith uri ''file://content/preview/'' then
        branch V w t uri ''file://content/preview/'' True ''content_preview'' ''path''
          (\<lambda>p. Some (Preview (getFilePreview V (the_fs w) p))) DEFAULT_CACHE_TTL
      else Some (Inl UnknownResource, w))"

section \<open>Notions used in the statements\<close>

text \<open>
  A well-formed string: every code unit is below 65536 and every surrogate is half of a
  pair. These are the strings that UTF-8 can encode.
\<close>

fun well_formed :: "ustring \<Rightarrow> bool" where
  "well_formed [] = True"
| "well_formed [u] = (u < 0x10000 \<and> \<not> is_high u \<and> \<not> is_low u)"
| "well_formed (u # l # us) =
     (if is_high u \<and> is_low l then well_formed us
      else u < 0x10000 \<and> \<not> is_high u \<and> \<not> is_low u \<and> well_formed (l # us))"

text \<open>What the comparison loop appends at index \<open>i\<close>.\<close>

definition entry_at :: "ustring list \<Rightarrow> ustring list \<Rightarrow> nat \<Rightarrow> difference list" where
  "entry_at lines1 lines2 i =
     (if line_or_empty lines1 i \<noteq> line_or_empty lines2 i then
        [if i \<ge> length lines1 then
           \<lparr>d_line = i + 1, d_type = added, d_content = line_or_empty lines2 i\<rparr>
         else if i \<ge> length lines2 then
           \<lparr>d_line = i + 1, d_type = removed, d_content = line_or_empty lines1 i\<rparr>
         else \<lparr>d_line = i + 1, d_type = modified,
                d_content = lit ''- '' @ line_or_empty lines1 i @ 10 # lit ''+ '' @ line_or_empty lines2 i\<rparr>]
      else [])"

text \<open>
  The registry and the watchers agree: every registered reference is an open watcher
  created for that path, and every open watcher is the one registered for its path. The
  empty registry is consistent and watchFile, stopWatching and the delivery of an event
  keep it so.
\<close>

definition consistent :: "watch_state \<Rightarrow> bool" where
  "consistent st =
     ((\<forall>p k. watchers st p = Some k \<longrightarrow>
          k < length (heap st) \<and> w_path (heap st ! k) = p \<and> \<not> w_closed (heap st ! k))
      \<and> (\<forall>k < length (heap st). \<not> w_closed (heap st ! k) \<longrightarrow>
            watchers st (w_path (heap st ! k)) = Some k))"

text \<open>
  The normalization as claim C9 words it, every run of white space replaced by a single
  space and the result trimmed, written without the code's \<open>replace\<close> and \<open>trim\<close>: the
  words of the text joined by single spaces. The words of a text are its maximal runs
  of characters that are not white space: white space is skipped, and a character that
  is not white space starts a word that takes the characters after it up to the next
  white space. \<open>join_spaces\<close> puts one space between the words and none around them.
\<close>

function words_of :: "ustring \<Rightarrow> ustring list" where
  "words_of [] = []"
| "words_of (c # cs) =
     (if isSpace c then words_of cs
      else (c # takeWhile (\<lambda>x. \<not> isSpace x) cs) # words_of (dropWhile (\<lambda>x. \<not> isSpace x) cs))"
  by pat_completeness auto
termination
  by (relation "measure length") (auto simp: length_dropWhile_le less_Suc_eq_le)

fun join_spaces :: "ustring list \<Rightarrow> ustring" where
  "join_spaces [] = []"
| "join_spaces [w] = w"
| "join_spaces (w # v # ws) = w @ 32 # join_spaces (v # ws)"

text \<open>
  What is said of one match of a file with the lines \<open>lines\<close>, for the matcher \<open>m\<close> and
  \<open>c\<close> lines of context; and the order of two matches by line, then column.
\<close>

definition match_ok :: "matcher \<Rightarrow> ustring list \<Rightarrow> nat \<Rightarrow> Match \<Rightarrow> bool" where
  "match_ok m lines c mt =
     (\<exists>i n. i < length lines \<and> m_line mt = i + 1 \<and> 1 \<le> m_column mt
        \<and> m (lines ! i) (m_column mt - 1) = Some n
        \<and> m_text mt = take n (drop (m_column mt - 1) (lines ! i)) \<and> m_text mt \<noteq> []
        \<and> m_context mt
            = join_lines (map ((!) lines)
                [max 0 (i - c)..<Suc (min (length lines - 1) (i + c))]))"

definition before :: "Match \<Rightarrow> Match \<Rightarrow> bool" where
  "before a b = (m_line a < m_line b \<or> (m_line a = m_line b \<and> m_column a < m_column b))"

text \<open>
  The seven resources of the handler: the prefix of the URI with the type and the field
  of the cache key, and what each computes on a miss from the file system and the
  argument cut from the URI (\<open>None\<close> when the computation does not return, which only
  the search can do).
\<close>

definition resource_kinds :: "(string \<times> string \<times> string) list" where
  "resource_kinds =
     [(''file://metadata/'', ''metadata'', ''path''),
      (''file://directory/'', ''directory'', ''path''),
      (''file://search/cache/'', ''search_cache'', ''query''),
      (''file://watch/status/'', ''watch_status'', ''path''),
      (''file://recent/'', ''recent_files'', ''type''),
      (''file://structure/'', ''directory_structure'', ''path''),
      (''file://content/preview/'', ''content_preview'', ''path'')]"

definition computed :: "'v views \<Rightarrow> library \<Rightarrow> filesystem \<Rightarrow> string \<Rightarrow> string \<Rightarrow> 'v body option" where
  "computed V L fs pfx arg =
     (if pfx = ''file://metadata/'' then Some (Metadata (getFileInfo V fs arg))
      else if pfx = ''file://directory/'' then Some (Contents (listDirectory V fs arg))
      else if pfx = ''file://search/cache/'' then
        map_option Results
          (searchInFiles L fs (lit arg) (Some ''/'') None None (Some False) (Some False)
             (Some False) (Some 2))
      else if pfx = ''file://watch/status/'' then Some (WatchStatus False [])
      else if pfx = ''file://recent/'' then Some (RecentFiles [] 0)
      else if pfx = ''file://structure/'' then Some (Structure (getDirectoryStructure V fs arg))
      else if pfx = ''file://content/preview/'' then Some (Preview (getFilePreview V fs arg))
      else None)"

section \<open>UTF-8: decoding what was encoded\<close>

lemma split3: "(c::nat) = (c div 4096) * 4096 + ((c div 64) mod 64) * 64 + c mod 64"
proof -
  have a: "c div 4096 = (c div 64) div 64" by (simp add: div_mult2_eq)
  have 1: "c = (c div 64) * 64 + c mod 64" by simp
  have 2: "c div 64 = ((c div 64) div 64) * 64 + (c div 64) mod 64" by simp
  have 3: "(X * 64 + Y) * 64 = X * 4096 + Y * 64" for X Y :: nat by simp
  have "(c div 64) * 64 = ((c div 64) div 64) * 4096 + ((c div 64) mod 64) * 64"
    using 2 3 [of "(c div 64) div 64" "(c div 64) mod 64"] by simp
  with 1 show ?thesis unfolding a by linarith
qed

lemma split4: "(c::nat) = (c div 262144) * 262144 + ((c div 4096) mod 64) * 4096 + ((c div 64) mod 64) * 64 + c mod 64"
proof -
  have a: "c div 262144 = (c div 4096) div 64" by (simp add: div_mult2_eq)
  have 2: "c div 4096 = ((c div 4096) div 64) * 64 + (c div 4096) mod 64" by simp
  have 3: "(X * 64 + Y) * 4096 = X * 262144 + Y * 4096" for X Y :: nat by simp
  have "(c div 4096) * 4096 = (c div 262144) * 262144 + ((c div 4096) mod 64) * 4096"
    unfolding a using 2 3 [of "(c div 4096) div 64" "(c div 4096) mod 64"] by simp
  then show ?thesis using split3 [of c] by linarith
qed

lemma step2':
  assumes "r < 64" "2 \<le> a" "a < 32"
  shows "decode_step (0xC0 + a) ((0x80 + r) # bs) = ([a * 64 + r], 1)"
proof -
  have b: "\<not> 0xC0 + a < 0x80" "0xC2 \<le> 0xC0 + a \<and> 0xC0 + a \<le> 0xDF"
    using assms by linarith+
  have c2: "is_cont (0x80 + r)" using assms(1) by (simp add: is_cont_def)
  show ?thesis
    unfolding decode_step_def
    by (simp only: b c2 if_True if_False list.case add_diff_cancel_left' simp_thms)
qed

lemma step3':
  assumes "m < 64" "r < 64" "a < 16" "a = 0 \<Longrightarrow> 32 \<le> m" "a = 13 \<Longrightarrow> m < 32"
  shows "decode_step (0xE0 + a) ((0x80 + m) # (0x80 + r) # bs) = ([a * 4096 + m * 64 + r], 2)"
proof -
  have b: "\<not> 0xE0 + a < 0x80" "\<not> (0xC2 \<le> 0xE0 + a \<and> 0xE0 + a \<le> 0xDF)" "0xE0 \<le> 0xE0 + a \<and> 0xE0 + a \<le> 0xEF"
    using assms(3) by linarith+
  have c1: "(if 0xE0 + a = 0xE0 then 0xA0 else 0x80) \<le> 0x80 + m \<and> 0x80 + m \<le> (if 0xE0 + a = 0xED then 0x9F else 0xBF)"
    using assms by (cases "a = 0"; cases "a = 13"; simp)
  have c2: "is_cont (0x80 + r)" using assms(2) by (simp add: is_cont_def)
  show ?thesis
    unfolding decode_step_def
    by (simp only: b c1 c2 if_True if_False list.case add_diff_cancel_left' simp_thms)
qed

lemma step4':
  assumes "m < 64" "n < 64" "r < 64" "a < 5" "a = 0 \<Longrightarrow> 16 \<le> m" "a = 4 \<Longrightarrow> m < 16"
  shows "decode_step (0xF0 + a) ((0x80 + m) # (0x80 + n) # (0x80 + r) # bs)
           = (units_of_cp (a * 262144 + m * 4096 + n * 64 + r), 3)"
proof -
  have b: "\<not> 0xF0 + a < 0x80" "\<not> (0xC2 \<le> 0xF0 + a \<and> 0xF0 + a \<le> 0xDF)"
      "\<not> (0xE0 \<le> 0xF0 + a \<and> 0xF0 + a \<le> 0xEF)" "0xF0 \<le> 0xF0 + a \<and> 0xF0 + a \<le> 0xF4"
    using assms(4) by linarith+
  have c1: "(if 0xF0 + a = 0xF0 then 0x90 else 0x80) \<le> 0x80 + m \<and> 0x80 + m \<le> (if 0xF0 + a = 0xF4 then 0x8F else 0xBF)"
    using assms by (cases "a = 0"; cases "a = 4"; simp)
  have c2: "is_cont (0x80 + r)" "is_cont (0x80 + n)" using assms(2,3) by (simp_all add: is_cont_def)
  show ?thesis
    unfolding decode_step_def
    by (simp only: b c1 c2 if_True if_False list.case add_diff_cancel_left' simp_thms)
qed

lemma pair_units:
  assumes "is_high h" "is_low l"
  shows "units_of_cp (pair_cp h l) = [h, l]" "0x10000 \<le> pair_cp h l" "pair_cp h l < 0x110000"
proof -
  define x where "x = h - 0xD800"
  define y where "y = l - 0xDC00"
  have h: "h = 0xD800 + x" "x < 1024" and l: "l = 0xDC00 + y" "y < 1024"
    using assms unfolding is_high_def is_low_def x_def y_def by linarith+
  have d: "(x * 1024 + y) div 1024 = x" "(x * 1024 + y) mod 1024 = y" using l(2) by simp_all
  have p: "pair_cp (0xD800 + x) (0xDC00 + y) = 0x10000 + (x * 1024 + y)"
    unfolding pair_cp_def by simp
  show "0x10000 \<le> pair_cp h l" unfolding h(1) l(1) p by simp
  show "pair_cp h l < 0x110000" unfolding h(1) l(1) p using h(2) l(2) by linarith
  show "units_of_cp (pair_cp h l) = [h, l]"
    unfolding units_of_cp_def h(1) l(1) p using d by simp
qed

lemma decode_encode_cp:
  assumes "c < 0x110000" "\<not> (0xD800 \<le> c \<and> c \<le> 0xDFFF)"
  shows "utf8_decode (encode_cp c @ bs) = units_of_cp c @ utf8_decode bs"
proof -
  consider (1) "c < 0x80" | (2) "0x80 \<le> c" "c < 0x800" | (3) "0x800 \<le> c" "c < 0x10000"
    | (4) "0x10000 \<le> c"
    by linarith
  then show ?thesis
  proof cases
    case 1
    then show ?thesis by (simp add: encode_cp_def units_of_cp_def decode_step_def)
  next
    case 2
    have c: "c = c div 64 * 64 + c mod 64" by simp
    have a: "2 \<le> c div 64" "c div 64 < 32" using 2 by linarith+
    have e: "encode_cp c = [0xC0 + c div 64, 0x80 + c mod 64]"
      using 2 by (simp add: encode_cp_def)
    have u: "units_of_cp c = [c]" using 2 by (simp add: units_of_cp_def)
    have "decode_step (0xC0 + c div 64) ((0x80 + c mod 64) # bs) = ([c], 1)"
      using step2' [of "c mod 64" "c div 64" bs] a c by simp
    then show ?thesis unfolding e u by simp
  next
    case 3
    let ?a = "c div 4096" and ?m = "(c div 64) mod 64" and ?r = "c mod 64"
    have c: "c = ?a * 4096 + ?m * 64 + ?r" by (rule split3)
    have m: "?m < 64" "?r < 64" by simp_all
    have a: "?a < 16" "?a = 0 \<Longrightarrow> 32 \<le> ?m" "?a = 13 \<Longrightarrow> ?m < 32"
      using 3 assms(2) c m by linarith+
    have e: "encode_cp c = [0xE0 + ?a, 0x80 + ?m, 0x80 + ?r]"
      using 3 by (simp add: encode_cp_def)
    have u: "units_of_cp c = [c]" using 3 by (simp add: units_of_cp_def)
    have "decode_step (0xE0 + ?a) ((0x80 + ?m) # (0x80 + ?r) # bs) = ([c], 2)"
      using step3' [OF m a, of bs] c by simp
    then show ?thesis unfolding e u by simp
  next
    case 4
    let ?a = "c div 262144" and ?m = "(c div 4096) mod 64" and ?n = "(c div 64) mod 64"
      and ?r = "c mod 64"
    have c: "c = ?a * 262144 + ?m * 4096 + ?n * 64 + ?r" by (rule split4)
    have m: "?m < 64" "?n < 64" "?r < 64" by simp_all
    have a: "?a < 5" "?a = 0 \<Longrightarrow> 16 \<le> ?m" "?a = 4 \<Longrightarrow> ?m < 16"
      using 4 assms(1) c m by linarith+
    have e: "encode_cp c = [0xF0 + ?a, 0x80 + ?m, 0x80 + ?n, 0x80 + ?r]"
      using 4 by (simp add: encode_cp_def)
    have "decode_step (0xF0 + ?a) ((0x80 + ?m) # (0x80 + ?n) # (0x80 + ?r) # bs)
            = (units_of_cp c, 3)"
      using step4' [OF m a, of bs] c by simp
    then show ?thesis unfolding e by simp
  qed
qed

lemma decode_replacement: "utf8_decode (0xEF # 0xBF # 0xBD # bs) = 0xFFFD # utf8_decode bs"
  by (simp add: decode_step_def is_cont_def)

lemma utf8_roundtrip: "well_formed s \<Longrightarrow> utf8_decode (utf8_encode s) = s"
proof (induction s rule: utf8_encode.induct)
  case 1
  then show ?case by simp
next
  case (2 u)
  then have "utf8_decode (encode_cp u @ []) = units_of_cp u @ utf8_decode []"
    by (intro decode_encode_cp) (auto simp: is_high_def is_low_def)
  with 2 show ?case by (simp add: units_of_cp_def)
next
  case (3 u l us)
  show ?case
  proof (cases "is_high u \<and> is_low l")
    case True
    then have "utf8_decode (encode_cp (pair_cp u l) @ utf8_encode us)
        = units_of_cp (pair_cp u l) @ utf8_decode (utf8_encode us)"
      using pair_units(2,3) [of u l] by (intro decode_encode_cp) auto
    with True 3 show ?thesis by (simp add: pair_units(1))
  next
    case False
    with 3(4) have w: "u < 0x10000" "\<not> is_high u" "\<not> is_low u" "well_formed (l # us)"
      by simp_all
    then have "utf8_decode (encode_cp u @ utf8_encode (l # us))
        = units_of_cp u @ utf8_decode (utf8_encode (l # us))"
      by (intro decode_encode_cp) (auto simp: is_high_def is_low_def)
    with False w 3 show ?thesis by (simp add: units_of_cp_def)
  qed
qed

section \<open>Lines and the comparison loop\<close>

lemma compare_loop_step:
  "i < maxLines \<Longrightarrow> compare_loop lines1 lines2 maxLines i diffs
     = compare_loop lines1 lines2 maxLines (Suc i) (diffs @ entry_at lines1 lines2 i)"
  by (subst compare_loop.simps) (simp add: entry_at_def Let_def)

lemma compare_loop_entries:
  "compare_loop lines1 lines2 maxLines i diffs
     = diffs @ concat (map (entry_at lines1 lines2) [i..<maxLines])"
proof (induction "maxLines - i" arbitrary: i diffs)
  case 0
  then show ?case by (subst compare_loop.simps) simp
next
  case (Suc n)
  then have lt: "i < maxLines" and n: "n = maxLines - Suc i" by simp_all
  have u: "[i..<maxLines] = i # [Suc i..<maxLines]" using lt by (simp add: upt_rec)
  show ?case
    unfolding compare_loop_step [OF lt] Suc(1) [OF n] u by simp
qed

lemma entry_at_line: "e \<in> set (entry_at lines1 lines2 i) \<Longrightarrow> d_line e = i + 1"
  by (auto simp: entry_at_def split: if_splits)

lemma lines_of_entries:
  "map d_line (concat (map (entry_at lines1 lines2) [i..<m]))
     = map Suc (filter (\<lambda>k. entry_at lines1 lines2 k \<noteq> []) [i..<m])"
proof (induction m)
  case 0
  then show ?case by simp
next
  case (Suc m)
  show ?case
  proof (cases "i \<le> m")
    case True
    have "map d_line (entry_at lines1 lines2 m) = (if entry_at lines1 lines2 m \<noteq> [] then [Suc m] else [])"
      by (simp add: entry_at_def)
    with True Suc show ?thesis by simp
  next
    case False
    then show ?thesis by simp
  qed
qed

lemma sorted_lines_of_entries:
  "sorted_wrt (<) (map d_line (concat (map (entry_at lines1 lines2) [i..<m])))"
proof -
  have "sorted_wrt (<) (filter (\<lambda>k. entry_at lines1 lines2 k \<noteq> []) [i..<m])"
    by (rule sorted_wrt_filter) simp
  then show ?thesis
    unfolding lines_of_entries by (simp add: sorted_wrt_map)
qed

lemma set_entries:
  "set (concat (map (entry_at lines1 lines2) [0..<m])) = (\<Union>i<m. set (entry_at lines1 lines2 i))"
  by (auto simp: atLeast0LessThan)

lemma length_entries:
  "length (concat (map (entry_at lines1 lines2) [0..<m]))
     = length (filter (\<lambda>k. entry_at lines1 lines2 k \<noteq> []) [0..<m])"
  using arg_cong [OF lines_of_entries [of lines1 lines2 0 m], of length] by simp

lemma split_lines_nonempty: "split_lines s \<noteq> []"
  by (induction s) (auto split: list.splits)

lemma split_lines_no_lf: "10 \<notin> set s \<Longrightarrow> split_lines s = [s]"
  by (induction s) auto

lemma split_lines_insert: "10 \<notin> set x \<Longrightarrow> split_lines (x @ 10 # c) = x # split_lines c"
  by (induction x) (auto split: list.splits simp: split_lines_nonempty)

lemma replace_spaces_set: "c \<in> set (replace_spaces s) \<Longrightarrow> c = 32 \<or> \<not> isSpace c"
proof (induction s rule: replace_spaces.induct)
  case 1
  then show ?case by simp
next
  case (2 a cs)
  then show ?case by (auto split: if_splits)
qed

lemma isSpace_lf: "isSpace 10"
  by (simp add: isSpace_def)

lemma trim_set: "set (trim s) \<subseteq> set s"
proof
  fix c assume "c \<in> set (trim s)"
  then have "c \<in> set (dropWhile isSpace (rev (dropWhile isSpace s)))" by (simp add: trim_def)
  then have "c \<in> set (rev (dropWhile isSpace s))" by (rule set_dropWhileD)
  then have "c \<in> set (dropWhile isSpace s)" by simp
  then show "c \<in> set s" by (rule set_dropWhileD)
qed

lemma normalized_no_lf: "10 \<notin> set (trim (replace_spaces s))"
  using replace_spaces_set [of 10 s] trim_set [of "replace_spaces s"] isSpace_lf by auto

lemma compareFiles_readable:
  assumes "file1 \<noteq> []" "file2 \<noteq> []" "fs file1 = Some (File b1)" "fs file2 = Some (File b2)"
  shows "compareFiles toLowerCase fs file1 file2 iw ic =
     (let ws = (case iw of None \<Rightarrow> False | Some b \<Rightarrow> b);
          cs = (case ic of None \<Rightarrow> False | Some b \<Rightarrow> b);
          lines1 = split_lines (processed toLowerCase ws cs (utf8_decode b1));
          lines2 = split_lines (processed toLowerCase ws cs (utf8_decode b2));
          diffs = concat (map (entry_at lines1 lines2) [0..<max (length lines1) (length lines2)])
      in ok file1 (Some \<lparr>identical = (diffs = []), differences = diffs,
           totalDifferences = length diffs,
           file1_lines = length lines1, file1_size = length (utf8_decode b1),
           file2_lines = length lines2, file2_size = length (utf8_decode b2),
           opt_ignoreWhitespace = ws, opt_ignoreCase = cs\<rparr>))"
  using assms
  by (simp add: compareFiles_def fs_access_def fs_readFile_def compare_loop_entries Let_def)

lemma entry_in_entries:
  "i < m \<Longrightarrow> e \<in> set (entry_at lines1 lines2 i)
     \<Longrightarrow> e \<in> set (concat (map (entry_at lines1 lines2) [0..<m]))"
  by (auto simp: set_entries)

lemma entries_modified:
  assumes "i < length lines1" "i < length lines2" "lines1 ! i \<noteq> lines2 ! i"
  shows "\<lparr>d_line = i + 1, d_type = modified,
           d_content = lit ''- '' @ lines1 ! i @ 10 # lit ''+ '' @ lines2 ! i\<rparr>
         \<in> set (concat (map (entry_at lines1 lines2) [0..<max (length lines1) (length lines2)]))"
  using assms by (intro entry_in_entries [of i]) (simp_all add: entry_at_def line_or_empty_def)

lemma entries_added:
  assumes "length lines1 \<le> i" "i < length lines2" "lines2 ! i \<noteq> []"
  shows "\<lparr>d_line = i + 1, d_type = added, d_content = lines2 ! i\<rparr>
         \<in> set (concat (map (entry_at lines1 lines2) [0..<max (length lines1) (length lines2)]))"
  using assms by (intro entry_in_entries [of i]) (simp_all add: entry_at_def line_or_empty_def)

lemma entries_removed:
  assumes "length lines2 \<le> i" "i < length lines1" "lines1 ! i \<noteq> []"
  shows "\<lparr>d_line = i + 1, d_type = removed, d_content = lines1 ! i\<rparr>
         \<in> set (concat (map (entry_at lines1 lines2) [0..<max (length lines1) (length lines2)]))"
  using assms by (intro entry_in_entries [of i]) (simp_all add: entry_at_def line_or_empty_def)

lemma entries_same: "concat (map (entry_at ls ls) [0..<m]) = []"
  by (simp add: entry_at_def)

lemma entries_inserted:
  assumes "ls \<noteq> []"
  shows "length (concat (map (entry_at ls (x # ls)) [0..<max (length ls) (length (x # ls))]))
     = length (filter (\<lambda>i. ls ! i \<noteq> (x # ls) ! i) [0..<length ls])
       + (if last ls = [] then 0 else 1)"
proof -
  have m: "max (length ls) (length (x # ls)) = Suc (length ls)" by simp
  have inner: "filter (\<lambda>k. entry_at ls (x # ls) k \<noteq> []) [0..<length ls]
      = filter (\<lambda>i. ls ! i \<noteq> (x # ls) ! i) [0..<length ls]"
    by (rule filter_cong) (auto simp: entry_at_def line_or_empty_def)
  have tail: "(entry_at ls (x # ls) (length ls) \<noteq> []) = (last ls \<noteq> [])"
    using assms by (simp add: entry_at_def line_or_empty_def last_conv_nth)
  show ?thesis
    unfolding m length_entries using inner tail by simp
qed

lemma entries_exact:
  assumes "e \<in> set (concat (map (entry_at lines1 lines2) [0..<max (length lines1) (length lines2)]))"
  shows "\<exists>i. d_line e = i + 1 \<and> i < max (length lines1) (length lines2)
           \<and> (if i < length lines1 \<and> i < length lines2 then
                 lines1 ! i \<noteq> lines2 ! i
                 \<and> e = \<lparr>d_line = i + 1, d_type = modified,
                         d_content = lit ''- '' @ lines1 ! i @ 10 # lit ''+ '' @ lines2 ! i\<rparr>
               else if length lines1 \<le> i then
                 e = \<lparr>d_line = i + 1, d_type = added, d_content = lines2 ! i\<rparr>
               else e = \<lparr>d_line = i + 1, d_type = removed, d_content = lines1 ! i\<rparr>)"
proof -
  from assms obtain k where k: "k < max (length lines1) (length lines2)"
    and e: "e \<in> set (entry_at lines1 lines2 k)"
    by (auto simp: set_entries)
  from e have "d_line e = k + 1 \<and>
           (if k < length lines1 \<and> k < length lines2 then
                 lines1 ! k \<noteq> lines2 ! k
                 \<and> e = \<lparr>d_line = k + 1, d_type = modified,
                         d_content = lit ''- '' @ lines1 ! k @ 10 # lit ''+ '' @ lines2 ! k\<rparr>
               else if length lines1 \<le> k then
                 e = \<lparr>d_line = k + 1, d_type = added, d_content = lines2 ! k\<rparr>
               else e = \<lparr>d_line = k + 1, d_type = removed, d_content = lines1 ! k\<rparr>)"
    using k by (auto simp: entry_at_def line_or_empty_def split: if_splits)
  with k show ?thesis by blast
qed

lemma entries_empty_extra:
  assumes "(length lines1 \<le> i \<and> i < length lines2 \<and> lines2 ! i = [])
           \<or> (length lines2 \<le> i \<and> i < length lines1 \<and> lines1 ! i = [])"
    and "e \<in> set (concat (map (entry_at lines1 lines2) [0..<m]))"
  shows "d_line e \<noteq> i + 1"
proof
  assume l: "d_line e = i + 1"
  from assms(2) obtain k where "e \<in> set (entry_at lines1 lines2 k)" by (auto simp: set_entries)
  with l entry_at_line [of e lines1 lines2 k] have "e \<in> set (entry_at lines1 lines2 i)" by simp
  with assms(1) show False by (auto simp: entry_at_def line_or_empty_def)
qed

lemma entries_inserted_bounds:
  fixes ls :: "ustring list" and x :: ustring
  assumes "ls \<noteq> []"
  defines "D \<equiv> concat (map (entry_at ls (x # ls)) [0..<max (length ls) (length (x # ls))])"
    and "K \<equiv> length (filter (\<lambda>i. ls ! i \<noteq> (x # ls) ! i) [0..<length ls])"
  shows "K \<le> length ls \<and> K \<le> length D \<and> length D \<le> K + 1 \<and> (last ls \<noteq> [] \<longrightarrow> length D = K + 1)"
proof -
  have "K \<le> length ls"
    unfolding K_def
    using length_filter_le [of "\<lambda>i. ls ! i \<noteq> (x # ls) ! i" "[0..<length ls]"] by simp
  moreover have "length D = K + (if last ls = [] then 0 else 1)"
    unfolding D_def K_def by (rule entries_inserted [OF assms(1)])
  ultimately show ?thesis by (simp split: if_splits)
qed

section \<open>deleteFile\<close>

text \<open>
  Claim C5. For a valid (non-empty) path: deleting an existing directory without
  \<open>recursive\<close> fails with the error "Directory requires recursive deletion" and leaves
  the file system as it was; deleting a missing path without \<open>force\<close> fails with "Path
  not found"; with \<open>force\<close> a missing path is reported as success. In each case nothing
  is deleted.
\<close>

theorem deleteFile_guards:
  assumes "p \<noteq> []"
  shows "(fs p = Some Directory \<and> (recursive = None \<or> recursive = Some False) \<longrightarrow>
            deleteFile fs p recursive force
              = (failed p (Text ''Directory requires recursive deletion''), fs)
            \<and> \<not> success (fst (deleteFile fs p recursive force)))
       \<and> (fs p = None \<and> (force = None \<or> force = Some False) \<longrightarrow>
            deleteFile fs p recursive force = (failed p (Text ''Path not found''), fs)
            \<and> \<not> success (fst (deleteFile fs p recursive force)))
       \<and> (fs p = None \<and> force = Some True \<longrightarrow>
            deleteFile fs p recursive force = (ok p None, fs)
            \<and> success (fst (deleteFile fs p recursive force)))"
  using assms
  by (auto simp: deleteFile_def DeleteFileSchema_parse_def fs_access_def fs_stat_def
        failed_def ok_def)

theorem deleteFile_guards_witness:
  "deleteFile [''/d'' \<mapsto> Directory, ''/d/f'' \<mapsto> File [104]] ''/d'' None None
     = (failed ''/d'' (Text ''Directory requires recursive deletion''),
        [''/d'' \<mapsto> Directory, ''/d/f'' \<mapsto> File [104]])
   \<and> deleteFile [''/d'' \<mapsto> Directory, ''/d/f'' \<mapsto> File [104]] ''/x'' None None
     = (failed ''/x'' (Text ''Path not found''), [''/d'' \<mapsto> Directory, ''/d/f'' \<mapsto> File [104]])
   \<and> deleteFile [''/d'' \<mapsto> Directory, ''/d/f'' \<mapsto> File [104]] ''/x'' None (Some True)
     = (ok ''/x'' None, [''/d'' \<mapsto> Directory, ''/d/f'' \<mapsto> File [104]])"
  using deleteFile_guards [of "''/d''" "[''/d'' \<mapsto> Directory, ''/d/f'' \<mapsto> File [104]]" None None]
    deleteFile_guards [of "''/x''" "[''/d'' \<mapsto> Directory, ''/d/f'' \<mapsto> File [104]]" None None]
    deleteFile_guards [of "''/x''" "[''/d'' \<mapsto> Directory, ''/d/f'' \<mapsto> File [104]]" None "Some True"]
  by simp

section \<open>readFile with a range\<close>

text \<open>
  Claim C10. When \<open>offset\<close> or \<open>limit\<close> is given, readFile of a readable file slices the
  bytes from \<open>offset\<close> (0 when absent) to \<open>offset + limit\<close> (the end when \<open>limit\<close> is
  absent). With an encoding other than utf8 the content is that slice as a raw buffer,
  whatever the requested encoding; only with utf8 (given or by default) is the slice
  decoded to a string.
\<close>

theorem readFile_ranged:
  assumes "p \<noteq> []" and "fs p = Some (File bs)"
    and "offset \<noteq> None \<or> limit \<noteq> None"
    and "\<forall>n. offset = Some n \<longrightarrow> 0 \<le> n" and "\<forall>n. limit = Some n \<longrightarrow> 1 \<le> n"
  shows "\<exists>d. readFile N fs p enc offset limit = ok p (Some d)
           \<and> rd_encoding d = (case enc of None \<Rightarrow> utf8 | Some e \<Rightarrow> e)
           \<and> rd_content d =
               (let start = (case offset of None \<Rightarrow> 0 | Some n \<Rightarrow> nat n);
                    sl = slice bs start (case limit of None \<Rightarrow> length bs | Some l \<Rightarrow> start + nat l)
                in if enc = None \<or> enc = Some utf8 then Str (utf8_decode sl) else Buf sl)"
  using assms
  by (cases offset; cases limit; cases enc)
     (auto simp: readFile_def ReadFileSchema_parse_def fs_access_def fs_readFile_def
        buffer_toString_def Let_def)

theorem readFile_ranged_witness:
  "\<exists>d. readFile \<lparr>encodeWith = (\<lambda>e s. s), decodeWith = (\<lambda>e b. b)\<rparr>
          [''/f'' \<mapsto> File [104, 105, 33]] ''/f'' (Some latin1) (Some 1) (Some 1)
           = ok ''/f'' (Some d) \<and> rd_encoding d = latin1 \<and> rd_content d = Buf [105]"
  using readFile_ranged [of "''/f''" "[''/f'' \<mapsto> File [104, 105, 33]]" "[104, 105, 33]"
      "Some 1" "Some 1" "\<lparr>encodeWith = (\<lambda>e s. s), decodeWith = (\<lambda>e b. b)\<rparr>" "Some latin1"]
  by (simp add: slice_def)

section \<open>Writing, then reading\<close>

lemma writeFile_written:
  assumes "writeFile N fs p C enc createDirs ap = (r, fs')" and "success r"
    and "ap = None \<or> ap = Some False"
  shows "p \<noteq> [] \<and> fs' p = Some (File (buffer_from N C (case enc of None \<Rightarrow> utf8 | Some e \<Rightarrow> e)))"
  using assms
  by (auto simp: writeFile_def WriteFileSchema_parse_def fs_writeFile_def failed_def ok_def
        split: sum.splits option.splits node.splits if_splits)

text \<open>
  Claim C6. For every well-formed string \<open>C\<close>: when writeFile of \<open>C\<close> to a path under
  the default encoding (utf8, given or by default) and without \<open>append\<close> succeeds, a
  readFile of that path under the default encoding, in the file system the write left,
  succeeds with content \<open>C\<close>.
\<close>

theorem write_read_roundtrip:
  assumes "well_formed C"
    and "writeFile N fs p C enc createDirs ap = (r, fs')" and "success r"
    and "enc = None \<or> enc = Some utf8" and "ap = None \<or> ap = Some False"
    and "enc' = None \<or> enc' = Some utf8"
  shows "\<exists>d. readFile N fs' p enc' None None = ok p (Some d) \<and> rd_content d = Str C"
proof -
  from writeFile_written [OF assms(2,3,5)] assms(4)
  have p: "p \<noteq> []" and f: "fs' p = Some (File (utf8_encode C))"
    by (auto simp: buffer_from_def)
  show ?thesis
    using p f assms(6) utf8_roundtrip [OF assms(1)]
    by (auto simp: readFile_def ReadFileSchema_parse_def fs_access_def fs_readFile_def
          buffer_toString_def Let_def)
qed

theorem write_read_roundtrip_witness:
  "well_formed [104, 0xE9, 0x20AC, 0xD83D, 0xDE00]
   \<and> success (fst (writeFile \<lparr>encodeWith = (\<lambda>e s. s), decodeWith = (\<lambda>e b. b)\<rparr>
         [''/'' \<mapsto> Directory] ''/a'' [104, 0xE9, 0x20AC, 0xD83D, 0xDE00] None None None))
   \<and> (\<exists>d. readFile \<lparr>encodeWith = (\<lambda>e s. s), decodeWith = (\<lambda>e b. b)\<rparr>
          (snd (writeFile \<lparr>encodeWith = (\<lambda>e s. s), decodeWith = (\<lambda>e b. b)\<rparr>
             [''/'' \<mapsto> Directory] ''/a'' [104, 0xE9, 0x20AC, 0xD83D, 0xDE00] None None None))
          ''/a'' None None None = ok ''/a'' (Some d)
        \<and> rd_content d = Str [104, 0xE9, 0x20AC, 0xD83D, 0xDE00])"
proof -
  let ?N = "\<lparr>encodeWith = (\<lambda>e s. s), decodeWith = (\<lambda>e b. b)\<rparr>"
  let ?C = "[104, 0xE9, 0x20AC, 0xD83D, 0xDE00] :: ustring"
  let ?w = "writeFile ?N [''/'' \<mapsto> Directory] ''/a'' ?C None None None"
  have wf: "well_formed ?C" by (simp add: is_high_def is_low_def)
  have s: "success (fst ?w)"
    by (simp add: writeFile_def WriteFileSchema_parse_def fs_writeFile_def dirname_def ok_def)
  show ?thesis
    using wf s write_read_roundtrip [OF wf surjective_pairing s, of None] by simp
qed

section \<open>compareFiles\<close>

text \<open>
  Claim C1, as amended. For two readable files, with \<open>lines1\<close> and \<open>lines2\<close> the lines
  of the two texts after the optional normalization, compareFiles succeeds and compares
  line \<open>i\<close> of file1 with line \<open>i\<close> of file2. Its differences carry strictly ascending
  line numbers, and each of them is, for an index \<open>i\<close> below the larger line count:
  \<open>modified\<close> with both line contents, where both files have a line \<open>i\<close> and the two
  differ; \<open>added\<close> with the line of file2, past the end of file1; \<open>removed\<close> with the
  line of file1, past the end of file2. Every index at which both files have a line and
  the two differ is reported, and so is every extra trailing line that is not empty. Two
  files with the same content are identical with 0 differences. When file2 is file1 with
  one line put in front, and \<open>K\<close> of the \<open>N\<close> lines of file1 differ from the line
  shifted onto them, there are \<open>K\<close> or \<open>K + 1\<close> differences, and \<open>K + 1\<close> when the last
  line of file1 (then the extra line of file2) is not empty: \<open>N + 1\<close> differences, not
  \<open>N\<close>, for a file1 whose lines all differ from their predecessors.
\<close>

theorem compareFiles_positional:
  fixes toLowerCase :: "ustring \<Rightarrow> ustring" and iw ic :: "bool option" and b1 b2 :: buffer
  defines "ws \<equiv> (case iw of None \<Rightarrow> False | Some b \<Rightarrow> b)"
    and "cs \<equiv> (case ic of None \<Rightarrow> False | Some b \<Rightarrow> b)"
  defines "lines1 \<equiv> split_lines (processed toLowerCase ws cs (utf8_decode b1))"
    and "lines2 \<equiv> split_lines (processed toLowerCase ws cs (utf8_decode b2))"
  assumes "file1 \<noteq> []" "file2 \<noteq> []" "fs file1 = Some (File b1)" "fs file2 = Some (File b2)"
  shows "\<exists>d. compareFiles toLowerCase fs file1 file2 iw ic = ok file1 (Some d)
     \<and> identical d = (differences d = [])
     \<and> totalDifferences d = length (differences d)
     \<and> file1_lines d = length lines1 \<and> file2_lines d = length lines2
     \<and> sorted_wrt (<) (map d_line (differences d))
     \<and> (\<forall>e \<in> set (differences d).
           \<exists>i. d_line e = i + 1 \<and> i < max (length lines1) (length lines2)
             \<and> (if i < length lines1 \<and> i < length lines2 then
                   lines1 ! i \<noteq> lines2 ! i
                   \<and> e = \<lparr>d_line = i + 1, d_type = modified,
                           d_content = lit ''- '' @ lines1 ! i @ 10 # lit ''+ '' @ lines2 ! i\<rparr>
                 else if length lines1 \<le> i then
                   e = \<lparr>d_line = i + 1, d_type = added, d_content = lines2 ! i\<rparr>
                 else e = \<lparr>d_line = i + 1, d_type = removed, d_content = lines1 ! i\<rparr>))
     \<and> (\<forall>i. i < length lines1 \<and> i < length lines2 \<and> lines1 ! i \<noteq> lines2 ! i \<longrightarrow>
           \<lparr>d_line = i + 1, d_type = modified,
             d_content = lit ''- '' @ lines1 ! i @ 10 # lit ''+ '' @ lines2 ! i\<rparr>
           \<in> set (differences d))
     \<and> (\<forall>i. length lines1 \<le> i \<and> i < length lines2 \<and> lines2 ! i \<noteq> [] \<longrightarrow>
           \<lparr>d_line = i + 1, d_type = added, d_content = lines2 ! i\<rparr> \<in> set (differences d))
     \<and> (\<forall>i. length lines2 \<le> i \<and> i < length lines1 \<and> lines1 ! i \<noteq> [] \<longrightarrow>
           \<lparr>d_line = i + 1, d_type = removed, d_content = lines1 ! i\<rparr> \<in> set (differences d))
     \<and> (b1 = b2 \<longrightarrow> identical d \<and> totalDifferences d = 0)
     \<and> (\<forall>x. lines2 = x # lines1 \<longrightarrow>
           (let K = length (filter (\<lambda>i. lines1 ! i \<noteq> (x # lines1) ! i) [0..<length lines1])
            in K \<le> length lines1 \<and> K \<le> totalDifferences d \<and> totalDifferences d \<le> K + 1
               \<and> (last lines1 \<noteq> [] \<longrightarrow> totalDifferences d = K + 1)))"
proof -
  let ?D = "concat (map (entry_at lines1 lines2) [0..<max (length lines1) (length lines2)])"
  let ?d = "\<lparr>identical = (?D = []), differences = ?D, totalDifferences = length ?D,
             file1_lines = length lines1, file1_size = length (utf8_decode b1),
             file2_lines = length lines2, file2_size = length (utf8_decode b2),
             opt_ignoreWhitespace = ws, opt_ignoreCase = cs\<rparr>"
  have r: "compareFiles toLowerCase fs file1 file2 iw ic = ok file1 (Some ?d)"
    using compareFiles_readable [OF assms(5-8), of toLowerCase iw ic]
    by (simp add: Let_def ws_def cs_def lines1_def lines2_def)
  have s: "sorted_wrt (<) (map d_line ?D)" by (rule sorted_lines_of_entries)
  have t: "\<forall>e \<in> set ?D.
           \<exists>i. d_line e = i + 1 \<and> i < max (length lines1) (length lines2)
             \<and> (if i < length lines1 \<and> i < length lines2 then
                   lines1 ! i \<noteq> lines2 ! i
                   \<and> e = \<lparr>d_line = i + 1, d_type = modified,
                           d_content = lit ''- '' @ lines1 ! i @ 10 # lit ''+ '' @ lines2 ! i\<rparr>
                 else if length lines1 \<le> i then
                   e = \<lparr>d_line = i + 1, d_type = added, d_content = lines2 ! i\<rparr>
                 else e = \<lparr>d_line = i + 1, d_type = removed, d_content = lines1 ! i\<rparr>)"
    by (intro ballI entries_exact)
  have m: "\<forall>i. i < length lines1 \<and> i < length lines2 \<and> lines1 ! i \<noteq> lines2 ! i \<longrightarrow>
           \<lparr>d_line = i + 1, d_type = modified,
             d_content = lit ''- '' @ lines1 ! i @ 10 # lit ''+ '' @ lines2 ! i\<rparr>
           \<in> set ?D"
    using entries_modified by blast
  have a: "\<forall>i. length lines1 \<le> i \<and> i < length lines2 \<and> lines2 ! i \<noteq> [] \<longrightarrow>
           \<lparr>d_line = i + 1, d_type = added, d_content = lines2 ! i\<rparr> \<in> set ?D"
    using entries_added by blast
  have rm: "\<forall>i. length lines2 \<le> i \<and> i < length lines1 \<and> lines1 ! i \<noteq> [] \<longrightarrow>
           \<lparr>d_line = i + 1, d_type = removed, d_content = lines1 ! i\<rparr> \<in> set ?D"
    using entries_removed by blast
  have same: "b1 = b2 \<longrightarrow> ?D = []"
    by (auto simp: lines1_def lines2_def entries_same)
  have ne: "lines1 \<noteq> []" by (simp add: lines1_def split_lines_nonempty)
  have ins: "\<forall>x. lines2 = x # lines1 \<longrightarrow>
           (let K = length (filter (\<lambda>i. lines1 ! i \<noteq> (x # lines1) ! i) [0..<length lines1])
            in K \<le> length lines1 \<and> K \<le> length ?D \<and> length ?D \<le> K + 1
               \<and> (last lines1 \<noteq> [] \<longrightarrow> length ?D = K + 1))"
  proof (intro allI impI)
    fix x assume e: "lines2 = x # lines1"
    show "let K = length (filter (\<lambda>i. lines1 ! i \<noteq> (x # lines1) ! i) [0..<length lines1])
            in K \<le> length lines1 \<and> K \<le> length ?D \<and> length ?D \<le> K + 1
               \<and> (last lines1 \<noteq> [] \<longrightarrow> length ?D = K + 1)"
      unfolding e Let_def by (rule entries_inserted_bounds [OF ne])
  qed
  show ?thesis
    apply (rule exI [of _ ?d])
    apply (intro conjI)
    subgoal by (rule r)
    subgoal by simp
    subgoal by simp
    subgoal by simp
    subgoal by simp
    subgoal using s by (simp only: CompareData.select_convs)
    subgoal using t by (simp only: CompareData.select_convs)
    subgoal using m by (simp only: CompareData.select_convs)
    subgoal using a by (simp only: CompareData.select_convs)
    subgoal using rm by (simp only: CompareData.select_convs)
    subgoal using same by simp
    subgoal using ins by (simp only: CompareData.select_convs)
    done
qed

theorem compareFiles_positional_witness:
  "\<exists>d. compareFiles id [''a'' \<mapsto> File [97], ''b'' \<mapsto> File [120, 10, 97]] ''a'' ''b'' None None
          = ok ''a'' (Some d)
     \<and> sorted_wrt (<) (map d_line (differences d))
     \<and> \<lparr>d_line = 1, d_type = modified, d_content = [45, 32, 97, 10, 43, 32, 120]\<rparr>
         \<in> set (differences d)
     \<and> \<lparr>d_line = 2, d_type = added, d_content = [97]\<rparr> \<in> set (differences d)
     \<and> totalDifferences d = 2"
proof -
  let ?fs = "[''a'' \<mapsto> File [97], ''b'' \<mapsto> File [120, 10, 97]]"
  let ?f = "case None of None \<Rightarrow> False | Some b \<Rightarrow> b"
  let ?L1 = "split_lines (processed id ?f ?f (utf8_decode [97]))"
  let ?L2 = "split_lines (processed id ?f ?f (utf8_decode [120, 10, 97]))"
  have l1: "?L1 = [[97]]" by code_simp
  have l2: "?L2 = [[120], [97]]" by code_simp
  have h: "''a'' \<noteq> []" "''b'' \<noteq> []" "?fs ''a'' = Some (File [97])"
    "?fs ''b'' = Some (File [120, 10, 97])" by simp_all
  from compareFiles_positional [OF h, of id None None] obtain d where
    r: "compareFiles id ?fs ''a'' ''b'' None None = ok ''a'' (Some d)"
    and s: "sorted_wrt (<) (map d_line (differences d))"
    and m: "\<forall>i. i < length ?L1 \<and> i < length ?L2 \<and> ?L1 ! i \<noteq> ?L2 ! i \<longrightarrow>
           \<lparr>d_line = i + 1, d_type = modified,
             d_content = lit ''- '' @ ?L1 ! i @ 10 # lit ''+ '' @ ?L2 ! i\<rparr>
           \<in> set (differences d)"
    and a: "\<forall>i. length ?L1 \<le> i \<and> i < length ?L2 \<and> ?L2 ! i \<noteq> [] \<longrightarrow>
           \<lparr>d_line = i + 1, d_type = added, d_content = ?L2 ! i\<rparr> \<in> set (differences d)"
    and ins: "\<forall>x. ?L2 = x # ?L1 \<longrightarrow>
           (let K = length (filter (\<lambda>i. ?L1 ! i \<noteq> (x # ?L1) ! i) [0..<length ?L1])
            in K \<le> length ?L1 \<and> K \<le> totalDifferences d \<and> totalDifferences d \<le> K + 1
               \<and> (last ?L1 \<noteq> [] \<longrightarrow> totalDifferences d = K + 1))"
    by blast
  from m [rule_format, of 0] have m0:
    "\<lparr>d_line = 1, d_type = modified, d_content = [45, 32, 97, 10, 43, 32, 120]\<rparr>
       \<in> set (differences d)"
    unfolding l1 l2 by (simp add: lit_def)
  from a [rule_format, of 1] have a1:
    "\<lparr>d_line = 2, d_type = added, d_content = [97]\<rparr> \<in> set (differences d)"
    unfolding l1 l2 by (simp add: numeral_2_eq_2)
  from ins [rule_format, of "[120]"] have t: "totalDifferences d = 2"
    unfolding l1 l2 by simp
  from r s m0 a1 t show ?thesis by blast
qed

text \<open>
  The claim as first stated fails on the code. With file1 the one line \<open>a\<close> (so
  \<open>N = 1\<close>) and file2 the lines \<open>x\<close>, \<open>a\<close>, there are two differences, not one; and with
  file2 the line \<open>a\<close> followed by a line feed, file2 has an extra, empty, trailing line
  that is not reported.
\<close>

theorem compareFiles_positional_counterexample:
  "data (compareFiles id [''a'' \<mapsto> File [97], ''b'' \<mapsto> File [120, 10, 97]] ''a'' ''b'' None None)
     = Some \<lparr>identical = False,
         differences = [\<lparr>d_line = 1, d_type = modified, d_content = [45, 32, 97, 10, 43, 32, 120]\<rparr>,
                        \<lparr>d_line = 2, d_type = added, d_content = [97]\<rparr>],
         totalDifferences = 2, file1_lines = 1, file1_size = 1, file2_lines = 2, file2_size = 3,
         opt_ignoreWhitespace = False, opt_ignoreCase = False\<rparr>
   \<and> data (compareFiles id [''a'' \<mapsto> File [97], ''c'' \<mapsto> File [97, 10]] ''a'' ''c'' None None)
     = Some \<lparr>identical = True, differences = [], totalDifferences = 0,
         file1_lines = 1, file1_size = 1, file2_lines = 2, file2_size = 2,
         opt_ignoreWhitespace = False, opt_ignoreCase = False\<rparr>"
  by code_simp

text \<open>
  An extra trailing line that is empty: \<open>lines[i] || ''\<close> reads the missing line of the
  shorter file as the empty string, the two compare equal, and the index is not
  reported, unlike the index of any other extra line. The amended claim says nothing
  of this case.
\<close>

lemma compareFiles_empty_extra_line:
  fixes toLowerCase :: "ustring \<Rightarrow> ustring" and iw ic :: "bool option" and b1 b2 :: buffer
  defines "ws \<equiv> (case iw of None \<Rightarrow> False | Some b \<Rightarrow> b)"
    and "cs \<equiv> (case ic of None \<Rightarrow> False | Some b \<Rightarrow> b)"
  defines "lines1 \<equiv> split_lines (processed toLowerCase ws cs (utf8_decode b1))"
    and "lines2 \<equiv> split_lines (processed toLowerCase ws cs (utf8_decode b2))"
  assumes "file1 \<noteq> []" "file2 \<noteq> []" "fs file1 = Some (File b1)" "fs file2 = Some (File b2)"
    and "(length lines1 \<le> i \<and> i < length lines2 \<and> lines2 ! i = [])
         \<or> (length lines2 \<le> i \<and> i < length lines1 \<and> lines1 ! i = [])"
  shows "\<exists>d. compareFiles toLowerCase fs file1 file2 iw ic = ok file1 (Some d)
           \<and> (\<forall>e \<in> set (differences d). d_line e \<noteq> i + 1)"
proof -
  let ?D = "concat (map (entry_at lines1 lines2) [0..<max (length lines1) (length lines2)])"
  let ?d = "\<lparr>identical = (?D = []), differences = ?D, totalDifferences = length ?D,
             file1_lines = length lines1, file1_size = length (utf8_decode b1),
             file2_lines = length lines2, file2_size = length (utf8_decode b2),
             opt_ignoreWhitespace = ws, opt_ignoreCase = cs\<rparr>"
  have r: "compareFiles toLowerCase fs file1 file2 iw ic = ok file1 (Some ?d)"
    using compareFiles_readable [OF assms(5-8), of toLowerCase iw ic]
    by (simp add: Let_def ws_def cs_def lines1_def lines2_def)
  have "\<forall>e \<in> set ?D. d_line e \<noteq> i + 1"
    using entries_empty_extra [OF assms(9)] by blast
  then have "\<forall>e \<in> set (differences ?d). d_line e \<noteq> i + 1"
    by (simp only: CompareData.select_convs)
  with r show ?thesis by blast
qed

section \<open>compareFiles ignoring white space\<close>

lemma isSpace_space: "isSpace 32"
  by (simp add: isSpace_def)

lemma takeWhile_not_space: "\<forall>x \<in> set (takeWhile (\<lambda>x. \<not> isSpace x) cs). \<not> isSpace x"
  by (auto dest: set_takeWhileD)

lemma words_of_word:
  "w \<in> set (words_of s) \<Longrightarrow> w \<noteq> [] \<and> (\<forall>c \<in> set w. \<not> isSpace c)"
proof (induction s rule: words_of.induct)
  case 1
  then show ?case by simp
next
  case (2 c cs)
  show ?case
  proof (cases "isSpace c")
    case True
    with 2(3) have "w \<in> set (words_of cs)" by simp
    with 2(1) [OF True] show ?thesis .
  next
    case False
    with 2(3) consider "w = c # takeWhile (\<lambda>x. \<not> isSpace x) cs"
      | "w \<in> set (words_of (dropWhile (\<lambda>x. \<not> isSpace x) cs))" by auto
    then show ?thesis
    proof cases
      case 1
      with False takeWhile_not_space [of cs] show ?thesis by simp
    next
      case 2
      with \<open>\<not> isSpace c \<Longrightarrow> w \<in> set (words_of (dropWhile (\<lambda>x. \<not> isSpace x) cs))
          \<Longrightarrow> w \<noteq> [] \<and> (\<forall>c \<in> set w. \<not> isSpace c)\<close> False
      show ?thesis by blast
    qed
  qed
qed

lemma words_of_concat: "concat (words_of s) = filter (\<lambda>c. \<not> isSpace c) s"
proof (induction s rule: words_of.induct)
  case 1
  then show ?case by simp
next
  case (2 c cs)
  let ?Q = "\<lambda>x. \<not> isSpace x"
  have t: "filter ?Q (takeWhile ?Q cs) = takeWhile ?Q cs"
    using takeWhile_not_space [of cs] by (simp only: filter_id_conv)
  have "filter ?Q cs = filter ?Q (takeWhile ?Q cs @ dropWhile ?Q cs)" by simp
  also have "\<dots> = takeWhile ?Q cs @ filter ?Q (dropWhile ?Q cs)"
    unfolding filter_append t ..
  finally have f: "filter ?Q cs = takeWhile ?Q cs @ filter ?Q (dropWhile ?Q cs)" .
  show ?case
  proof (cases "isSpace c")
    case True
    with 2(1) show ?thesis by simp
  next
    case False
    with 2(2) f show ?thesis by simp
  qed
qed

lemma join_spaces_last:
  assumes "ws \<noteq> []" "\<forall>w \<in> set ws. w \<noteq> []"
  shows "join_spaces ws \<noteq> [] \<and> last (join_spaces ws) = last (last ws)"
  using assms by (induction ws rule: join_spaces.induct) auto

lemma join_spaces_Cons:
  "join_spaces (w # ws) = (if ws = [] then w else w @ 32 # join_spaces ws)"
  by (cases ws) simp_all

lemma joined_words_end:
  "dropWhile isSpace (rev (join_spaces (words_of s))) = rev (join_spaces (words_of s))"
proof (cases "words_of s = []")
  case True
  then show ?thesis by simp
next
  case False
  have ne: "\<forall>w \<in> set (words_of s). w \<noteq> []" using words_of_word by blast
  from join_spaces_last [OF False ne]
  have j: "join_spaces (words_of s) \<noteq> []"
    and l: "last (join_spaces (words_of s)) = last (last (words_of s))" by simp_all
  have "last (words_of s) \<in> set (words_of s)" using False by simp
  from words_of_word [OF this] have "\<not> isSpace (last (last (words_of s)))" by simp
  with l have "\<not> isSpace (hd (rev (join_spaces (words_of s))))"
    using j by (simp add: hd_rev)
  with j show ?thesis by (cases "rev (join_spaces (words_of s))") simp_all
qed

lemma replace_spaces_skip:
  "dropWhile isSpace (replace_spaces (dropWhile isSpace s)) = dropWhile isSpace (replace_spaces s)"
proof (induction s)
  case Nil
  then show ?case by simp
next
  case (Cons c cs)
  then show ?case by (simp add: isSpace_space)
qed

lemma replace_spaces_head:
  "s = [] \<or> \<not> isSpace (hd s) \<Longrightarrow> dropWhile isSpace (replace_spaces s) = replace_spaces s"
  by (cases s) auto

lemma replace_spaces_word:
  "\<forall>c \<in> set w. \<not> isSpace c \<Longrightarrow> replace_spaces (w @ s) = w @ replace_spaces s"
  by (induction w) simp_all

lemma dropWhile_head: "dropWhile P s = [] \<or> \<not> P (hd (dropWhile P s))"
  using hd_dropWhile [of P s] by blast

lemma replace_spaces_words:
  "\<exists>post. (post = [] \<or> post = [32])
      \<and> dropWhile isSpace (replace_spaces s) = join_spaces (words_of s) @ post
      \<and> (words_of s = [] \<longrightarrow> post = [])"
proof (induction s rule: words_of.induct)
  case 1
  then show ?case by simp
next
  case (2 c cs)
  show ?case
  proof (cases "isSpace c")
    case True
    with 2(1) obtain post where p: "post = [] \<or> post = [32]"
      "dropWhile isSpace (replace_spaces cs) = join_spaces (words_of cs) @ post"
      "words_of cs = [] \<longrightarrow> post = []" by blast
    have "dropWhile isSpace (replace_spaces (c # cs)) = dropWhile isSpace (replace_spaces cs)"
      using True by (simp add: isSpace_space replace_spaces_skip)
    with p True show ?thesis by auto
  next
    case False
    let ?N = "takeWhile (\<lambda>x. \<not> isSpace x) cs"
    let ?D = "dropWhile (\<lambda>x. \<not> isSpace x) cs"
    from 2(2) [OF False] obtain post where p: "post = [] \<or> post = [32]"
      "dropWhile isSpace (replace_spaces ?D) = join_spaces (words_of ?D) @ post"
      "words_of ?D = [] \<longrightarrow> post = []" by blast
    have n: "\<forall>x \<in> set ?N. \<not> isSpace x" by (rule takeWhile_not_space)
    have "replace_spaces (c # cs) = c # replace_spaces (?N @ ?D)" using False by simp
    then have g: "replace_spaces (c # cs) = (c # ?N) @ replace_spaces ?D"
      using replace_spaces_word [OF n, of ?D] by simp
    have w: "words_of (c # cs) = (c # ?N) # words_of ?D" using False by simp
    have d: "dropWhile isSpace (replace_spaces (c # cs)) = (c # ?N) @ replace_spaces ?D"
      unfolding g using False by simp
    show ?thesis
    proof (cases ?D)
      case Nil
      have "dropWhile isSpace (replace_spaces (c # cs)) = join_spaces (words_of (c # cs)) @ []"
        unfolding d w Nil by simp
      then show ?thesis unfolding w by blast
    next
      case (Cons x xs)
      have "isSpace (hd ?D)" using dropWhile_head [of "\<lambda>x. \<not> isSpace x" cs] Cons by auto
      then have x: "isSpace x" using Cons by simp
      have "replace_spaces ?D = 32 # replace_spaces (dropWhile isSpace xs)"
        unfolding Cons using x by simp
      moreover have "dropWhile isSpace (replace_spaces (dropWhile isSpace xs))
          = replace_spaces (dropWhile isSpace xs)"
        by (rule replace_spaces_head) (rule dropWhile_head)
      moreover have "dropWhile isSpace (replace_spaces ?D)
          = dropWhile isSpace (replace_spaces (dropWhile isSpace xs))"
        unfolding Cons using x by (simp add: isSpace_space)
      ultimately have r: "replace_spaces ?D = 32 # join_spaces (words_of ?D) @ post"
        using p(2) by simp
      show ?thesis
      proof (cases "words_of ?D = []")
        case True
        with p(3) have "post = []" by simp
        with True have "dropWhile isSpace (replace_spaces (c # cs))
            = join_spaces (words_of (c # cs)) @ [32]"
          unfolding d w r by simp
        then show ?thesis unfolding w by blast
      next
        case False
        then have "dropWhile isSpace (replace_spaces (c # cs))
            = join_spaces (words_of (c # cs)) @ post"
          unfolding d w r by (simp add: join_spaces_Cons)
        with p(1) show ?thesis unfolding w by blast
      qed
    qed
  qed
qed

lemma normalized_words: "trim (replace_spaces s) = join_spaces (words_of s)"
proof -
  from replace_spaces_words [of s] obtain post where p: "post = [] \<or> post = [32]"
    and d: "dropWhile isSpace (replace_spaces s) = join_spaces (words_of s) @ post" by blast
  have "dropWhile isSpace (rev (join_spaces (words_of s) @ post))
      = dropWhile isSpace (rev (join_spaces (words_of s)))"
    using p by (auto simp: isSpace_space)
  then show ?thesis
    unfolding trim_def d by (simp add: joined_words_end)
qed

lemma processed_no_lf:
  assumes "\<forall>s. 10 \<notin> set s \<longrightarrow> 10 \<notin> set (toLowerCase s)"
  shows "10 \<notin> set (processed toLowerCase True cs content)"
  using assms normalized_no_lf [of content] by (simp add: processed_def Let_def)

text \<open>
  Claim C9. For two readable files compared with \<open>ignoreWhitespace\<close>, provided the
  runtime's lower-casing never produces a line feed from a text without one: the
  normalization turns each text into its words (the maximal runs of characters that are
  not white space, a line feed being white space) joined by single spaces, with nothing
  before the first and after the last word, lower-cased when \<open>ignoreCase\<close> is set. These
  normalized texts \<open>n1\<close> and \<open>n2\<close> contain no line feed, each splits into exactly one
  line, and there is at most one difference: none when \<open>n1 = n2\<close>, and otherwise exactly
  one \<open>modified\<close> difference at line 1.
\<close>

theorem compareFiles_ignoreWhitespace:
  fixes toLowerCase :: "ustring \<Rightarrow> ustring" and ic :: "bool option" and b1 b2 :: buffer
  defines "cs \<equiv> (case ic of None \<Rightarrow> False | Some b \<Rightarrow> b)"
  defines "n1 \<equiv> (let t = join_spaces (words_of (utf8_decode b1)) in if cs then toLowerCase t else t)"
    and "n2 \<equiv> (let t = join_spaces (words_of (utf8_decode b2)) in if cs then toLowerCase t else t)"
  assumes "file1 \<noteq> []" "file2 \<noteq> []" "fs file1 = Some (File b1)" "fs file2 = Some (File b2)"
    and "\<forall>s. 10 \<notin> set s \<longrightarrow> 10 \<notin> set (toLowerCase s)"
  shows "processed toLowerCase True cs (utf8_decode b1) = n1
     \<and> processed toLowerCase True cs (utf8_decode b2) = n2
     \<and> 10 \<notin> set n1 \<and> 10 \<notin> set n2 \<and> split_lines n1 = [n1] \<and> split_lines n2 = [n2]
     \<and> (\<exists>d. compareFiles toLowerCase fs file1 file2 (Some True) ic = ok file1 (Some d)
           \<and> file1_lines d = 1 \<and> file2_lines d = 1 \<and> totalDifferences d \<le> 1
           \<and> (if n1 = n2 then differences d = [] \<and> totalDifferences d = 0 \<and> identical d
               else differences d = [\<lparr>d_line = 1, d_type = modified,
                                        d_content = lit ''- '' @ n1 @ 10 # lit ''+ '' @ n2\<rparr>]
                    \<and> totalDifferences d = 1 \<and> \<not> identical d))"
proof -
  have p: "processed toLowerCase True cs (utf8_decode b1) = n1"
    "processed toLowerCase True cs (utf8_decode b2) = n2"
    by (simp_all add: processed_def n1_def n2_def normalized_words Let_def)
  have nl: "10 \<notin> set n1" "10 \<notin> set n2"
    using processed_no_lf [OF assms(8), of cs] unfolding p [symmetric] by blast+
  then have sp: "split_lines n1 = [n1]" "split_lines n2 = [n2]"
    by (simp_all add: split_lines_no_lf)
  have e: "concat (map (entry_at [n1] [n2]) [0..<max (length [n1]) (length [n2])])
      = (if n1 = n2 then [] else [\<lparr>d_line = 1, d_type = modified,
                                        d_content = lit ''- '' @ n1 @ 10 # lit ''+ '' @ n2\<rparr>])"
    by (simp add: entry_at_def line_or_empty_def)
  have r: "compareFiles toLowerCase fs file1 file2 (Some True) ic =
      (let diffs = (if n1 = n2 then [] else [\<lparr>d_line = 1, d_type = modified,
                                        d_content = lit ''- '' @ n1 @ 10 # lit ''+ '' @ n2\<rparr>])
       in ok file1 (Some \<lparr>identical = (diffs = []), differences = diffs,
           totalDifferences = length diffs,
           file1_lines = 1, file1_size = length (utf8_decode b1),
           file2_lines = 1, file2_size = length (utf8_decode b2),
           opt_ignoreWhitespace = True, opt_ignoreCase = cs\<rparr>))"
    using compareFiles_readable [OF assms(4-7), of toLowerCase "Some True" ic] sp e
    by (simp add: Let_def cs_def [symmetric] p)
  show ?thesis
    using nl sp p by (auto simp: r Let_def)
qed

theorem compareFiles_ignoreWhitespace_witness:
  "(\<exists>d. compareFiles (map (\<lambda>c. if 65 \<le> c \<and> c \<le> 90 then c + 32 else c))
          [''a'' \<mapsto> File [65, 10, 32, 98], ''b'' \<mapsto> File [97, 32, 66],
           ''c'' \<mapsto> File [97, 9, 10, 99]] ''a'' ''b'' (Some True) (Some True)
        = ok ''a'' (Some d)
      \<and> file1_lines d = 1 \<and> file2_lines d = 1 \<and> differences d = [] \<and> identical d)
   \<and> (\<exists>d. compareFiles (map (\<lambda>c. if 65 \<le> c \<and> c \<le> 90 then c + 32 else c))
          [''a'' \<mapsto> File [65, 10, 32, 98], ''b'' \<mapsto> File [97, 32, 66],
           ''c'' \<mapsto> File [97, 9, 10, 99]] ''a'' ''c'' (Some True) (Some True)
        = ok ''a'' (Some d)
      \<and> file1_lines d = 1 \<and> file2_lines d = 1
      \<and> differences d = [\<lparr>d_line = 1, d_type = modified,
                            d_content = [45, 32, 97, 32, 98, 10, 43, 32, 97, 32, 99]\<rparr>]
      \<and> totalDifferences d = 1 \<and> \<not> identical d)"
proof -
  let ?low = "map (\<lambda>c::nat. if 65 \<le> c \<and> c \<le> 90 then c + 32 else c)"
  let ?fs = "[''a'' \<mapsto> File [65, 10, 32, 98], ''b'' \<mapsto> File [97, 32, 66],
           ''c'' \<mapsto> File [97, 9, 10, 99]]"
  let ?f = "case Some True of None \<Rightarrow> False | Some b \<Rightarrow> b"
  have low: "\<forall>s. 10 \<notin> set s \<longrightarrow> 10 \<notin> set (?low s)"
  proof (intro allI impI notI)
    fix s :: ustring
    assume s: "10 \<notin> set s" and "10 \<in> set (?low s)"
    then obtain c where c: "c \<in> set s" "(if 65 \<le> c \<and> c \<le> 90 then c + 32 else c) = 10"
      by auto
    from c(2) have "c = 10" by (simp split: if_splits)
    with c(1) s show False by simp
  qed
  have h: "''a'' \<noteq> []" "''b'' \<noteq> []" "''c'' \<noteq> []" "?fs ''a'' = Some (File [65, 10, 32, 98])"
    "?fs ''b'' = Some (File [97, 32, 66])" "?fs ''c'' = Some (File [97, 9, 10, 99])" by simp_all
  let ?n1 = "let t = join_spaces (words_of (utf8_decode [65, 10, 32, 98])) in if ?f then ?low t else t"
  let ?n2 = "let t = join_spaces (words_of (utf8_decode [97, 32, 66])) in if ?f then ?low t else t"
  let ?n3 = "let t = join_spaces (words_of (utf8_decode [97, 9, 10, 99])) in if ?f then ?low t else t"
  have n1: "?n1 = [97, 32, 98]" by (simp add: decode_step_def isSpace_def)
  have n2: "?n2 = [97, 32, 98]" by (simp add: decode_step_def isSpace_def)
  have n3: "?n3 = [97, 32, 99]" by (simp add: decode_step_def isSpace_def)
  from compareFiles_ignoreWhitespace [OF h(1,2,4,5) low, of "Some True"] obtain d where
    r: "compareFiles ?low ?fs ''a'' ''b'' (Some True) (Some True) = ok ''a'' (Some d)"
    and l: "file1_lines d = 1" "file2_lines d = 1"
    and c: "if ?n1 = ?n2 then differences d = [] \<and> totalDifferences d = 0 \<and> identical d
            else differences d = [\<lparr>d_line = 1, d_type = modified,
                                     d_content = lit ''- '' @ ?n1 @ 10 # lit ''+ '' @ ?n2\<rparr>]
                 \<and> totalDifferences d = 1 \<and> \<not> identical d"
    by blast
  from c have "differences d = []" "identical d" unfolding n1 n2 by simp_all
  with r l have A: "\<exists>d. compareFiles ?low ?fs ''a'' ''b'' (Some True) (Some True) = ok ''a'' (Some d)
      \<and> file1_lines d = 1 \<and> file2_lines d = 1 \<and> differences d = [] \<and> identical d" by blast
  from compareFiles_ignoreWhitespace [OF h(1,3,4,6) low, of "Some True"] obtain d' where
    r': "compareFiles ?low ?fs ''a'' ''c'' (Some True) (Some True) = ok ''a'' (Some d')"
    and l': "file1_lines d' = 1" "file2_lines d' = 1"
    and c': "if ?n1 = ?n3 then differences d' = [] \<and> totalDifferences d' = 0 \<and> identical d'
            else differences d' = [\<lparr>d_line = 1, d_type = modified,
                                     d_content = lit ''- '' @ ?n1 @ 10 # lit ''+ '' @ ?n3\<rparr>]
                 \<and> totalDifferences d' = 1 \<and> \<not> identical d'"
    by blast
  from c' have "differences d' = [\<lparr>d_line = 1, d_type = modified,
                            d_content = [45, 32, 97, 32, 98, 10, 43, 32, 97, 32, 99]\<rparr>]"
    "totalDifferences d' = 1" "\<not> identical d'"
    unfolding n1 n3 by (simp_all add: lit_def)
  with r' l' have B: "\<exists>d. compareFiles ?low ?fs ''a'' ''c'' (Some True) (Some True) = ok ''a'' (Some d)
      \<and> file1_lines d = 1 \<and> file2_lines d = 1
      \<and> differences d = [\<lparr>d_line = 1, d_type = modified,
                            d_content = [45, 32, 97, 32, 98, 10, 43, 32, 97, 32, 99]\<rparr>]
      \<and> totalDifferences d = 1 \<and> \<not> identical d" by blast
  from A B show ?thesis by (rule conjI)
qed

section \<open>searchInFiles\<close>

lemma find_SomeD: "find P xs = Some x \<Longrightarrow> x \<in> set xs \<and> P x"
  by (induction xs) (auto split: if_splits)

lemma regex_exec_Some:
  assumes "regex_exec m s k = Some (idx, txt)"
  shows "k \<le> idx \<and> idx \<le> length s \<and> (\<exists>n. m s idx = Some n \<and> txt = take n (drop idx s))"
proof -
  from assms obtain i where f: "find (\<lambda>i. m s i \<noteq> None) [k..<Suc (length s)] = Some i"
    by (cases "find (\<lambda>i. m s i \<noteq> None) [k..<Suc (length s)]") (simp_all add: regex_exec_def)
  from find_SomeD [OF this] have i: "i \<in> set [k..<Suc (length s)]" "m s i \<noteq> None"
    by blast+
  then obtain n where n: "m s i = Some n" by auto
  with assms f have "idx = i" "txt = take n (drop i s)" by (auto simp: regex_exec_def)
  with i n show ?thesis by auto
qed

lemma regex_exec_again:
  assumes "regex_exec m s k = Some (idx, txt)"
  shows "regex_exec m s idx = Some (idx, txt)"
proof -
  from regex_exec_Some [OF assms] obtain n where
    b: "idx \<le> length s" and n: "m s idx = Some n" "txt = take n (drop idx s)" by blast
  from b have "[idx..<Suc (length s)] = idx # [Suc idx..<Suc (length s)]"
    by (simp add: upt_rec)
  with n show ?thesis by (simp add: regex_exec_def)
qed

lemma exec_loop_not_stuck:
  assumes "exec_loop m lines contextLines i k matches = Some y"
  shows "regex_exec m (lines ! i) k \<noteq> Some (k, [])"
proof (rule exec_loop.raw_induct
    [where P = "\<lambda>m lines c i k matches y. regex_exec m (lines ! i) k \<noteq> Some (k, [])",
      OF _ assms])
  fix f :: "matcher \<Rightarrow> ustring list \<Rightarrow> nat \<Rightarrow> nat \<Rightarrow> nat \<Rightarrow> Match list \<Rightarrow> Match list option"
    and m lines c i k matches y
  assume IH: "\<And>m lines c i k matches y. f m lines c i k matches = Some y
      \<Longrightarrow> regex_exec m (lines ! i) k \<noteq> Some (k, [])"
    and step: "(case regex_exec m (lines ! i) k of
        None \<Rightarrow> Some matches
      | Some (index, txt) \<Rightarrow>
          (let startLine = max 0 (i - c);
               endLine = min (length lines - 1) (i + c);
               ctx = join_lines (slice lines startLine (endLine + 1))
           in f m lines c i (index + length txt)
                (matches @ [\<lparr>m_line = i + 1, m_column = index + 1, m_text = txt,
                              m_context = ctx\<rparr>]))) = Some y"
  show "regex_exec m (lines ! i) k \<noteq> Some (k, [])"
  proof
    assume s: "regex_exec m (lines ! i) k = Some (k, [])"
    with step obtain matches' where "f m lines c i k matches' = Some y"
      by (simp add: Let_def)
    from IH [OF this] s show False by simp
  qed
qed

lemma exec_loop_progress:
  assumes "exec_loop m lines contextLines i k matches = Some y"
    and "regex_exec m (lines ! i) k = Some (idx, txt)"
  shows "txt \<noteq> []"
proof
  assume e: "txt = []"
  have "exec_loop m lines contextLines i k matches
      = exec_loop m lines contextLines i (idx + length txt)
          (matches @ [\<lparr>m_line = i + 1, m_column = idx + 1, m_text = txt,
             m_context = join_lines (slice lines (max 0 (i - contextLines))
                (min (length lines - 1) (i + contextLines) + 1))\<rparr>])"
    by (subst exec_loop.simps) (simp add: assms(2) Let_def)
  with assms(1) e obtain matches' where
    n: "exec_loop m lines contextLines i idx matches' = Some y"
    by simp
  from exec_loop_not_stuck [OF n] regex_exec_again [OF assms(2)] e show False by simp
qed

lemma slice_run: "e \<le> length xs \<Longrightarrow> slice xs a e = map ((!) xs) [a..<e]"
  by (rule nth_equalityI) (auto simp: slice_def)

lemma exec_loop_matches:
  assumes "exec_loop m lines c i k acc = Some y" and "i < length lines"
    and "\<forall>a \<in> set acc. match_ok m lines c a" and "sorted_wrt before acc"
    and "\<forall>a \<in> set acc. m_line a < i + 1 \<or> (m_line a = i + 1 \<and> m_column a < k + 1)"
  shows "(\<forall>a \<in> set y. match_ok m lines c a) \<and> sorted_wrt before y
         \<and> (\<forall>a \<in> set y. m_line a \<le> i + 1)"
  using assms
proof (induction "Suc (length (lines ! i)) - k" arbitrary: k acc rule: less_induct)
  case less
  show ?case
  proof (cases "regex_exec m (lines ! i) k")
    case None
    with less.prems(1) have "y = acc" by (subst (asm) exec_loop.simps) simp
    with less.prems show ?thesis by auto
  next
    case (Some r)
    obtain idx tx where r: "r = (idx, tx)" by (cases r)
    with Some have ex: "regex_exec m (lines ! i) k = Some (idx, tx)" by simp
    from regex_exec_Some [OF ex] obtain n where
      b: "k \<le> idx" "idx \<le> length (lines ! i)" and n: "m (lines ! i) idx = Some n"
      and t: "tx = take n (drop idx (lines ! i))" by blast
    from exec_loop_progress [OF less.prems(1) ex] have ne: "tx \<noteq> []" .
    let ?mt = "\<lparr>m_line = i + 1, m_column = idx + 1, m_text = tx,
             m_context = join_lines (slice lines (max 0 (i - c))
                (min (length lines - 1) (i + c) + 1))\<rparr>"
    have next_call: "exec_loop m lines c i (idx + length tx) (acc @ [?mt]) = Some y"
      using less.prems(1) by (subst (asm) exec_loop.simps) (simp add: ex Let_def)
    have run: "slice lines (max 0 (i - c)) (min (length lines - 1) (i + c) + 1)
        = map ((!) lines) [max 0 (i - c)..<Suc (min (length lines - 1) (i + c))]"
      using less.prems(2) by (subst slice_run) simp_all
    have ok: "match_ok m lines c ?mt"
      unfolding match_ok_def using less.prems(2) n t ne run
      by (intro exI [of _ i] exI [of _ n]) simp
    have bf: "\<forall>a \<in> set acc. before a ?mt"
      using less.prems(5) b(1) by (auto simp: before_def)
    have i1: "\<forall>a \<in> set (acc @ [?mt]). match_ok m lines c a"
      using less.prems(3) ok by auto
    have i2: "sorted_wrt before (acc @ [?mt])"
      using less.prems(4) bf by (simp add: sorted_wrt_append)
    have i3: "\<forall>a \<in> set (acc @ [?mt]).
        m_line a < i + 1 \<or> (m_line a = i + 1 \<and> m_column a < idx + length tx + 1)"
      using less.prems(5) b(1) ne by auto
    have dec: "Suc (length (lines ! i)) - (idx + length tx) < Suc (length (lines ! i)) - k"
      using b ne by (cases tx) auto
    from less.hyps [OF dec next_call less.prems(2) i1 i2 i3] show ?thesis .
  qed
qed

lemma scan_lines_matches:
  assumes "scan_lines m lines c i acc = Some y"
    and "\<forall>a \<in> set acc. match_ok m lines c a" and "sorted_wrt before acc"
    and "\<forall>a \<in> set acc. m_line a \<le> i"
  shows "(\<forall>a \<in> set y. match_ok m lines c a) \<and> sorted_wrt before y"
  using assms
proof (induction m lines c i acc rule: scan_lines.induct)
  case (1 m lines c i acc)
  show ?case
  proof (cases "i < length lines")
    case False
    with "1.prems"(1) have "y = acc" by (subst (asm) scan_lines.simps) simp
    with "1.prems" show ?thesis by simp
  next
    case True
    show ?thesis
    proof (cases "lines ! i = []")
      case e: True
      from "1.prems"(1) True e have n: "scan_lines m lines c (Suc i) acc = Some y"
        by (subst (asm) scan_lines.simps) simp
      from "1.prems"(4) have "\<forall>a \<in> set acc. m_line a \<le> Suc i" by auto
      from "1.IH"(1) [OF True e n "1.prems"(2,3) this] show ?thesis .
    next
      case ne: False
      from "1.prems"(1) True ne obtain ms where
        x: "exec_loop m lines c i 0 acc = Some ms"
        and n: "scan_lines m lines c (Suc i) ms = Some y"
        by (subst (asm) scan_lines.simps) (simp split: option.splits)
      from "1.prems"(4) have "\<forall>a \<in> set acc. m_line a < i + 1 \<or> (m_line a = i + 1 \<and> m_column a < 0 + 1)"
        by auto
      from exec_loop_matches [OF x True "1.prems"(2,3) this]
      have ms: "\<forall>a \<in> set ms. match_ok m lines c a" "sorted_wrt before ms"
        "\<forall>a \<in> set ms. m_line a \<le> Suc i" by simp_all
      from "1.IH"(2) [OF True ne x n ms] show ?thesis .
    qed
  qed
qed

lemma search_files_results:
  assumes "search_files L fs m c dir fls acc = Some rs" and "res \<in> set rs"
  shows "res \<in> set acc
         \<or> (\<exists>bs. fs (sr_path res) = Some (File bs)
               \<and> scan_lines m (split_lines (utf8_decode bs)) c 0 [] = Some (sr_matches res)
               \<and> sr_matches res \<noteq> [])"
  using assms
proof (induction fls arbitrary: acc)
  case Nil
  then show ?case by simp
next
  case (Cons f fls)
  let ?p = "join L dir f"
  show ?case
  proof (cases "fs ?p")
    case None
    with Cons.prems(1) have "search_files L fs m c dir fls acc = Some rs" by (simp add: Let_def)
    from Cons.IH [OF this Cons.prems(2)] show ?thesis .
  next
    case (Some nd)
    show ?thesis
    proof (cases nd)
      case Directory
      with Some Cons.prems(1) have "search_files L fs m c dir fls acc = Some rs"
        by (simp add: Let_def)
      from Cons.IH [OF this Cons.prems(2)] show ?thesis .
    next
      case (File bs)
      with Some Cons.prems(1) obtain ms where
        sc: "scan_lines m (split_lines (utf8_decode bs)) c 0 [] = Some ms"
        and n: "search_files L fs m c dir fls
                  (if length ms > 0 then acc @ [\<lparr>sr_path = ?p, sr_matches = ms\<rparr>] else acc)
                = Some rs"
        by (simp add: Let_def split: option.splits)
      from Cons.IH [OF n Cons.prems(2)] Some File sc show ?thesis
        by (auto split: if_splits)
    qed
  qed
qed

text \<open>
  The search returns whenever no compiled expression matches the empty string (and no
  match runs past the end of its line); a match of the empty string makes the \<open>while\<close>
  loop run forever.
\<close>

lemma exec_loop_empty_match:
  assumes "regex_exec m (lines ! i) k = Some (idx, [])"
  shows "exec_loop m lines c i k acc = None"
proof (cases "exec_loop m lines c i k acc")
  case None
  then show ?thesis .
next
  case (Some y)
  from exec_loop_progress [OF Some assms] show ?thesis by simp
qed

lemma exec_loop_returns:
  assumes "\<And>s j n. m s j = Some n \<Longrightarrow> 0 < n \<and> j + n \<le> length s"
  shows "\<exists>y. exec_loop m lines c i k acc = Some y"
proof (induction "Suc (length (lines ! i)) - k" arbitrary: k acc rule: less_induct)
  case less
  show ?case
  proof (cases "regex_exec m (lines ! i) k")
    case None
    then show ?thesis by (subst exec_loop.simps) simp
  next
    case (Some r)
    obtain idx tx where r: "r = (idx, tx)" by (cases r)
    with Some have ex: "regex_exec m (lines ! i) k = Some (idx, tx)" by simp
    from regex_exec_Some [OF ex] obtain n where
      b: "k \<le> idx" "idx \<le> length (lines ! i)" and n: "m (lines ! i) idx = Some n"
      and t: "tx = take n (drop idx (lines ! i))" by blast
    from assms [OF n] t have l: "length tx = n" "0 < n" "idx + n \<le> length (lines ! i)"
      by auto
    then have dec: "Suc (length (lines ! i)) - (idx + length tx) < Suc (length (lines ! i)) - k"
      using b by simp
    from less [OF dec] show ?thesis
      by (subst exec_loop.simps) (simp add: ex Let_def)
  qed
qed

lemma scan_lines_returns:
  assumes "\<And>s j n. m s j = Some n \<Longrightarrow> 0 < n \<and> j + n \<le> length s"
  shows "\<exists>y. scan_lines m lines c i acc = Some y"
proof (induction "length lines - i" arbitrary: i acc)
  case 0
  then show ?case by (subst scan_lines.simps) simp
next
  case (Suc n)
  then have lt: "i < length lines" and n: "n = length lines - Suc i" by simp_all
  show ?case
  proof (cases "lines ! i = []")
    case True
    with Suc(1) [OF n, of acc] lt show ?thesis by (subst scan_lines.simps) simp
  next
    case False
    have "\<exists>y. exec_loop m lines c i 0 acc = Some y"
      by (rule exec_loop_returns) (rule assms)
    then obtain ms where ms: "exec_loop m lines c i 0 acc = Some ms" by blast
    with Suc(1) [OF n, of ms] lt False show ?thesis by (subst scan_lines.simps) simp
  qed
qed

lemma search_files_returns:
  assumes "\<And>s j n. m s j = Some n \<Longrightarrow> 0 < n \<and> j + n \<le> length s"
  shows "\<exists>rs. search_files L fs m c dir fls acc = Some rs"
proof (induction fls arbitrary: acc)
  case Nil
  then show ?case by simp
next
  case (Cons f fls)
  show ?case
  proof (cases "fs (join L dir f)")
    case None
    with Cons [of acc] show ?thesis by (simp add: Let_def)
  next
    case (Some nd)
    show ?thesis
    proof (cases nd)
      case Directory
      with Some Cons [of acc] show ?thesis by (simp add: Let_def)
    next
      case (File bs)
      have "\<exists>y. scan_lines m (split_lines (utf8_decode bs)) c 0 [] = Some y"
        by (rule scan_lines_returns) (rule assms)
      then obtain ms where "scan_lines m (split_lines (utf8_decode bs)) c 0 [] = Some ms"
        by blast
      with Some File
        Cons [of "if length ms > 0
                  then acc @ [\<lparr>sr_path = join L dir f, sr_matches = ms\<rparr>] else acc"]
      show ?thesis by (simp add: Let_def)
    qed
  qed
qed

lemma searchInFiles_returns:
  assumes "\<And>src ic m s j n. RegExp L src ic = Some m \<Longrightarrow> m s j = Some n
             \<Longrightarrow> 0 < n \<and> j + n \<le> length s"
  shows "\<exists>r. searchInFiles L fs pattern dir fp md ih cs ww ctx = Some r"
proof (cases "SearchInFilesSchema_parse pattern dir fp md ih cs ww ctx")
  case (Inl e)
  then show ?thesis by (simp add: searchInFiles_def Let_def)
next
  case (Inr parsed)
  obtain p1 p2 p3 p4 p5 p6 p7 p8 where
    parsed: "parsed = (p1, p2, p3, p4, p5, p6, p7, p8)"
    by (cases parsed) auto
  let ?rp = "if p7 then [92, 98] @ p1 @ [92, 98] else p1"
  show ?thesis
  proof (cases "RegExp L ?rp (\<not> p6)")
    case None
    with Inr parsed show ?thesis by (simp add: searchInFiles_def Let_def)
  next
    case (Some m)
    have nn: "search_files L fs m p8 dir' fls [] \<noteq> None" for dir' fls
      using search_files_returns [where m = m and L = L and fs = fs and c = p8
          and dir = dir' and fls = fls and acc = "[]", OF assms [OF Some]] by auto
    have gen: "(case search_files L fs m p8 d f [] of None \<Rightarrow> None
                | Some results \<Rightarrow> Some (g results)) \<noteq> None" for d f and g :: "_ \<Rightarrow> SearchData FileOperationResult"
      using nn [of d f] by (cases "search_files L fs m p8 d f []") auto
    have "searchInFiles L fs pattern dir fp md ih cs ww ctx \<noteq> None"
      by (simp add: searchInFiles_def Let_def Inr parsed Some gen)
    then show ?thesis by auto
  qed
qed

text \<open>
  Claim C7. When searchInFiles returns a result with data, then for every file listed
  in it: the path is a regular file, the pattern compiled to a matcher \<open>m\<close>, and every
  match listed for the file has the line number \<open>i + 1\<close> of a line index \<open>i\<close> of the
  file, a column \<open>c \<ge> 1\<close> such that \<open>m\<close> matches line \<open>i\<close> at the offset \<open>c - 1\<close> (the
  column is the 1-based offset of the match on its line), the matched characters, which
  are not empty, as its text, and as its context the lines from
  \<open>max(0, i - contextLines)\<close> to \<open>min(lastLine, i + contextLines)\<close> joined with line
  feeds. The matches of a file are listed in ascending order of line, and within a line
  in ascending order of column.
\<close>

theorem searchInFiles_matches:
  assumes "searchInFiles L fs pattern dir fp md ih cs ww ctx = Some r"
    and "data r = Some d" and "res \<in> set (sd_results d)"
  shows "\<exists>bs m. fs (sr_path res) = Some (File bs)
      \<and> RegExp L (if (case ww of None \<Rightarrow> False | Some b \<Rightarrow> b)
                   then [92, 98] @ pattern @ [92, 98] else pattern)
                  (\<not> (case cs of None \<Rightarrow> False | Some b \<Rightarrow> b)) = Some m
      \<and> sr_matches res \<noteq> []
      \<and> (let lines = split_lines (utf8_decode bs);
              contextLines = (case ctx of None \<Rightarrow> 2 | Some n \<Rightarrow> nat n)
          in (\<forall>mt \<in> set (sr_matches res). \<exists>i n.
                 i < length lines \<and> m_line mt = i + 1 \<and> 1 \<le> m_column mt
                 \<and> m (lines ! i) (m_column mt - 1) = Some n
                 \<and> m_text mt = take n (drop (m_column mt - 1) (lines ! i))
                 \<and> m_text mt \<noteq> []
                 \<and> m_context mt
                     = join_lines (map ((!) lines)
                         [max 0 (i - contextLines)
                            ..<Suc (min (length lines - 1) (i + contextLines))])))
      \<and> sorted_wrt (\<lambda>a b. m_line a < m_line b
                             \<or> (m_line a = m_line b \<and> m_column a < m_column b))
           (sr_matches res)"
proof -
  let ?bad = "pattern = [] \<or> (case md of Some n \<Rightarrow> n < 1 | None \<Rightarrow> False)
         \<or> (case ctx of Some n \<Rightarrow> n < 0 | None \<Rightarrow> False)"
  let ?dir = "case dir of None \<Rightarrow> ''.'' | Some d \<Rightarrow> d"
  let ?c = "case ctx of None \<Rightarrow> 2 | Some n \<Rightarrow> nat n"
  let ?cs = "case cs of None \<Rightarrow> False | Some b \<Rightarrow> b"
  let ?ih = "case ih of None \<Rightarrow> False | Some b \<Rightarrow> b"
  let ?rp = "if (case ww of None \<Rightarrow> False | Some b \<Rightarrow> b)
                   then [92, 98] @ pattern @ [92, 98] else pattern"
  let ?sp = "case fp of None \<Rightarrow> ''**/*'' | Some f \<Rightarrow> if f = [] then ''**/*'' else f"
  let ?gp = "case map_option nat md of None \<Rightarrow> ?sp
       | Some d \<Rightarrow> join L ?sp (if d = 1 then [] else concat (replicate (d - 1) ''/*''))"
  let ?files = "glob L fs (resolve L ?dir) (if ?gp = [] then ?sp else ?gp) ?ih ?cs"
  have nb: "\<not> ?bad"
  proof
    assume ?bad
    then have "SearchInFilesSchema_parse pattern dir fp md ih cs ww ctx = Inl ZodError"
      by (simp add: SearchInFilesSchema_parse_def)
    then have "data (the (searchInFiles L fs pattern dir fp md ih cs ww ctx)) = None"
      by (simp add: searchInFiles_def Let_def failed_def)
    with assms(1,2) show False by simp
  qed
  then have parse: "SearchInFilesSchema_parse pattern dir fp md ih cs ww ctx
      = Inr (pattern, ?dir, fp, map_option nat md, ?ih, ?cs,
             (case ww of None \<Rightarrow> False | Some b \<Rightarrow> b), ?c)"
    by (simp add: SearchInFilesSchema_parse_def)
  have eq: "searchInFiles L fs pattern dir fp md ih cs ww ctx
      = (case RegExp L ?rp (\<not> ?cs) of
           None \<Rightarrow> Some (failed (case dir of None \<Rightarrow> ''.'' | Some d \<Rightarrow> if d = [] then ''.'' else d)
                           (Message SyntaxError))
         | Some regex \<Rightarrow>
             (case search_files L fs regex ?c (resolve L ?dir) ?files [] of
                None \<Rightarrow> None
              | Some results \<Rightarrow>
                  Some (ok ?dir (Some \<lparr>sd_results = results,
                    sd_totalMatches = sum_list (map (\<lambda>r. length (sr_matches r)) results),
                    sd_pattern = pattern, sd_directory = resolve L ?dir\<rparr>))))"
    by (simp add: searchInFiles_def parse Let_def)
  from assms(1,2) obtain m where m: "RegExp L ?rp (\<not> ?cs) = Some m"
    unfolding eq by (cases "RegExp L ?rp (\<not> ?cs)") (auto simp: failed_def)
  from assms(1,2) m obtain results where
    sf: "search_files L fs m ?c (resolve L ?dir) ?files [] = Some results"
    and d: "sd_results d = results"
    unfolding eq
    by (cases "search_files L fs m ?c (resolve L ?dir) ?files []") (auto simp: ok_def)
  from search_files_results [OF sf] assms(3) d obtain bs where
    f: "fs (sr_path res) = Some (File bs)"
    and sc: "scan_lines m (split_lines (utf8_decode bs)) ?c 0 [] = Some (sr_matches res)"
    and ne: "sr_matches res \<noteq> []"
    by auto
  from scan_lines_matches [OF sc] have
    ok: "\<forall>a \<in> set (sr_matches res). match_ok m (split_lines (utf8_decode bs)) ?c a"
    and so: "sorted_wrt before (sr_matches res)"
    by simp_all
  have so': "sorted_wrt (\<lambda>a b. m_line a < m_line b
                             \<or> (m_line a = m_line b \<and> m_column a < m_column b))
           (sr_matches res)"
    using so unfolding before_def [abs_def] .
  show ?thesis
    apply (rule exI [of _ bs])
    apply (rule exI [of _ m])
    apply (intro conjI)
    subgoal by (rule f)
    subgoal by (rule m)
    subgoal by (rule ne)
    subgoal using ok unfolding match_ok_def Let_def by blast
    subgoal by (rule so')
    done
qed

theorem searchInFiles_matches_witness:
  "searchInFiles
     \<lparr>glob = (\<lambda>fs d pat dot cs. [''f.txt'']),
      RegExp = (\<lambda>src ic. Some (\<lambda>s i. if i < length s \<and> s ! i = 97 then Some 1 else None)),
      resolve = (\<lambda>p. p), join = (\<lambda>d f. d @ ''/'' @ f)\<rparr>
     [''./f.txt'' \<mapsto> File [97, 98, 97, 10, 10, 99, 97]] [97] None None None None None None (Some 1)
   = Some (ok ''.'' (Some \<lparr>sd_results = [\<lparr>sr_path = ''./f.txt'', sr_matches =
        [\<lparr>m_line = 1, m_column = 1, m_text = [97], m_context = [97, 98, 97, 10]\<rparr>,
         \<lparr>m_line = 1, m_column = 3, m_text = [97], m_context = [97, 98, 97, 10]\<rparr>,
         \<lparr>m_line = 3, m_column = 2, m_text = [97], m_context = [10, 99, 97]\<rparr>]\<rparr>],
        sd_totalMatches = 3, sd_pattern = [97], sd_directory = ''.''\<rparr>))
   \<and> sorted_wrt (\<lambda>a b. m_line a < m_line b \<or> (m_line a = m_line b \<and> m_column a < m_column b))
        [\<lparr>m_line = 1, m_column = 1, m_text = [97], m_context = [97, 98, 97, 10]\<rparr>,
         \<lparr>m_line = 1, m_column = 3, m_text = [97], m_context = [97, 98, 97, 10]\<rparr>,
         \<lparr>m_line = 3, m_column = 2, m_text = [97], m_context = [10, 99, 97]\<rparr>]"
proof -
  let ?L = "\<lparr>glob = (\<lambda>fs d pat dot cs. [''f.txt'']),
      RegExp = (\<lambda>src ic. Some (\<lambda>s i. if i < length s \<and> s ! i = 97 then Some 1 else None)),
      resolve = (\<lambda>p. p), join = (\<lambda>d f. d @ ''/'' @ f)\<rparr>"
  let ?fs = "[''./f.txt'' \<mapsto> File [97, 98, 97, 10, 10, 99, 97]]"
  let ?m1 = "\<lparr>m_line = 1, m_column = 1, m_text = [97], m_context = [97, 98, 97, 10]\<rparr>"
  let ?m2 = "\<lparr>m_line = 1, m_column = 3, m_text = [97], m_context = [97, 98, 97, 10]\<rparr>"
  let ?m3 = "\<lparr>m_line = 3, m_column = 2, m_text = [97], m_context = [10, 99, 97]\<rparr>"
  let ?ms = "[?m1, ?m2, ?m3]"
  let ?res = "\<lparr>sr_path = ''./f.txt'', sr_matches = ?ms\<rparr>"
  let ?d = "\<lparr>sd_results = [?res], sd_totalMatches = 3, sd_pattern = [97], sd_directory = ''.''\<rparr>"
  let ?m = "\<lambda>s i. if i < length s \<and> s ! i = (97::nat) then Some (1::nat) else None"
  let ?lines = "[[97, 98, 97], [], [99, 97]] :: ustring list"
  have u: "[0..<4] = [0, 1, 2, 3]" "[1..<4] = [1, 2, 3]" "[3..<4] = [3]"
    "[0..<3] = [0, 1, 2]" "[2..<3] = [2]"
    by (simp_all add: upt_rec)
  have x0: "exec_loop ?m ?lines (Suc 0) 0 0 [] = Some [?m1, ?m2]"
    by (simp add: exec_loop.simps regex_exec_def u slice_def numeral_2_eq_2)
  have x2: "exec_loop ?m ?lines (Suc 0) (Suc (Suc 0)) 0 [?m1, ?m2] = Some ?ms"
    by (simp add: exec_loop.simps regex_exec_def u slice_def numeral_2_eq_2)
  have sc: "scan_lines ?m ?lines 1 0 [] = Some ?ms"
    by (simp add: scan_lines.simps x0 [simplified] x2 [simplified])
  have ev: "searchInFiles ?L ?fs [97] None None None None None None (Some 1) = Some (ok ''.'' (Some ?d))"
    by (simp add: searchInFiles_def SearchInFilesSchema_parse_def Let_def decode_step_def
          sc [simplified] ok_def)
  have d: "data (ok ''.'' (Some ?d)) = Some ?d" by (simp add: ok_def)
  have r: "?res \<in> set (sd_results ?d)" by simp
  from searchInFiles_matches [OF ev d r]
  have "sorted_wrt (\<lambda>a b. m_line a < m_line b \<or> (m_line a = m_line b \<and> m_column a < m_column b)) ?ms"
    by simp
  with ev show ?thesis by simp
qed

section \<open>The watcher registry\<close>

lemma consistent_initial: "consistent \<lparr>watchers = Map.empty, heap = []\<rparr>"
  by (simp add: consistent_def)

lemma consistent_registered:
  "consistent st \<Longrightarrow> watchers st p = Some k \<Longrightarrow>
     k < length (heap st) \<and> w_path (heap st ! k) = p \<and> \<not> w_closed (heap st ! k)"
  unfolding consistent_def by blast

lemma consistent_open:
  "consistent st \<Longrightarrow> k < length (heap st) \<Longrightarrow> \<not> w_closed (heap st ! k) \<Longrightarrow>
     watchers st (w_path (heap st ! k)) = Some k"
  unfolding consistent_def by blast

lemma consistentI:
  assumes "\<And>p k. watchers st p = Some k \<Longrightarrow>
          k < length (heap st) \<and> w_path (heap st ! k) = p \<and> \<not> w_closed (heap st ! k)"
    and "\<And>k. k < length (heap st) \<Longrightarrow> \<not> w_closed (heap st ! k) \<Longrightarrow>
            watchers st (w_path (heap st ! k)) = Some k"
  shows "consistent st"
  unfolding consistent_def using assms by blast

lemma filter_upt_eq: "filter (\<lambda>j. j = k) [0..<n] = (if k < n then [k] else [])"
  by (induction n) auto

lemma active_registered:
  assumes "consistent st" "watchers st p = Some k"
  shows "active st p = [k]"
proof -
  note r = consistent_registered [OF assms]
  have "filter (\<lambda>j. w_path (heap st ! j) = p \<and> \<not> w_closed (heap st ! j)) [0..<length (heap st)]
      = filter (\<lambda>j. j = k) [0..<length (heap st)]"
  proof (rule filter_cong [OF refl])
    fix j assume "j \<in> set [0..<length (heap st)]"
    then have j: "j < length (heap st)" by simp
    show "(w_path (heap st ! j) = p \<and> \<not> w_closed (heap st ! j)) = (j = k)"
    proof
      assume a: "w_path (heap st ! j) = p \<and> \<not> w_closed (heap st ! j)"
      then have "watchers st (w_path (heap st ! j)) = Some j"
        using consistent_open [OF assms(1) j] by blast
      with a assms(2) show "j = k" by simp
    next
      assume "j = k"
      with r show "w_path (heap st ! j) = p \<and> \<not> w_closed (heap st ! j)" by blast
    qed
  qed
  moreover from r have "k < length (heap st)" by blast
  ultimately show ?thesis by (simp add: active_def filter_upt_eq)
qed

lemma active_unregistered:
  assumes "consistent st" "watchers st p = None"
  shows "active st p = []"
proof -
  have "\<not> (w_path (heap st ! j) = p \<and> \<not> w_closed (heap st ! j))" if j: "j < length (heap st)" for j
  proof
    assume a: "w_path (heap st ! j) = p \<and> \<not> w_closed (heap st ! j)"
    then have "watchers st (w_path (heap st ! j)) = Some j"
      using consistent_open [OF assms(1) j] by blast
    with a assms(2) show False by simp
  qed
  then show ?thesis by (simp add: active_def filter_empty_conv)
qed

lemma stopWatching_registered:
  "watchers st p = Some k \<Longrightarrow> stopWatching st p
     = (ok p (Some False),
        st\<lparr>heap := (heap st)[k := (heap st ! k)\<lparr>w_closed := True\<rparr>],
           watchers := (watchers st)(p := None)\<rparr>)"
  by (simp add: stopWatching_def)

lemma stopWatching_unregistered:
  "watchers st p = None \<Longrightarrow> stopWatching st p = (failed p (Text ''Watcher not found''), st)"
  by (simp add: stopWatching_def)

lemma consistent_stopWatching:
  assumes "consistent st"
  shows "consistent (snd (stopWatching st p))"
proof (cases "watchers st p")
  case None
  with assms show ?thesis by (simp add: stopWatching_unregistered)
next
  case (Some k)
  note rk = consistent_registered [OF assms Some]
  let ?st = "st\<lparr>heap := (heap st)[k := (heap st ! k)\<lparr>w_closed := True\<rparr>],
           watchers := (watchers st)(p := None)\<rparr>"
  have "consistent ?st"
  proof (rule consistentI)
    fix q j assume "watchers ?st q = Some j"
    then have q: "q \<noteq> p" "watchers st q = Some j" by (simp_all split: if_splits)
    note rj = consistent_registered [OF assms q(2)]
    from rj rk q(1) have "j \<noteq> k" by auto
    with rj show "j < length (heap ?st) \<and> w_path (heap ?st ! j) = q \<and> \<not> w_closed (heap ?st ! j)"
      by simp
  next
    fix j assume j: "j < length (heap ?st)" and o: "\<not> w_closed (heap ?st ! j)"
    from j have j': "j < length (heap st)" by simp
    from o j' have jk: "j \<noteq> k" by (cases "j = k") simp_all
    with o have o': "\<not> w_closed (heap st ! j)" by simp
    from consistent_open [OF assms j' o'] have w: "watchers st (w_path (heap st ! j)) = Some j" .
    with Some jk have "w_path (heap st ! j) \<noteq> p" by auto
    with w jk show "watchers ?st (w_path (heap ?st ! j)) = Some j" by simp
  qed
  with Some show ?thesis by (simp add: stopWatching_registered)
qed

lemma stopWatching_unregisters: "watchers (snd (stopWatching st p)) p = None"
  by (cases "watchers st p") (simp_all add: stopWatching_def)

lemma consistent_register:
  assumes "consistent s" "watchers s p = None" "\<not> w_closed w" "w_path w = p"
  shows "consistent (s\<lparr>heap := heap s @ [w], watchers := (watchers s)(p \<mapsto> length (heap s))\<rparr>)"
    (is "consistent ?st")
proof (rule consistentI)
  fix q j assume a: "watchers ?st q = Some j"
  show "j < length (heap ?st) \<and> w_path (heap ?st ! j) = q \<and> \<not> w_closed (heap ?st ! j)"
  proof (cases "q = p")
    case True
    with a have "j = length (heap s)" by simp
    with True assms(3,4) show ?thesis by simp
  next
    case False
    with a have "watchers s q = Some j" by simp
    from consistent_registered [OF assms(1) this] show ?thesis by (simp add: nth_append)
  qed
next
  fix j assume j: "j < length (heap ?st)" and o: "\<not> w_closed (heap ?st ! j)"
  show "watchers ?st (w_path (heap ?st ! j)) = Some j"
  proof (cases "j = length (heap s)")
    case True
    with assms(4) show ?thesis by simp
  next
    case False
    with j have j': "j < length (heap s)" by simp
    with o have o': "\<not> w_closed (heap s ! j)" by (simp add: nth_append)
    from consistent_open [OF assms(1) j' o'] have w: "watchers s (w_path (heap s ! j)) = Some j" .
    with assms(2) have "w_path (heap s ! j) \<noteq> p" by auto
    with w j' show ?thesis by (simp add: nth_append)
  qed
qed

lemma watchFile_accessible:
  assumes "p \<noteq> []" "fs p \<noteq> None"
  shows "watchFile st fs p r i g =
     (ok p (Some \<lparr>watching = True, wa_recursive = (case r of None \<Rightarrow> False | Some b \<Rightarrow> b),
                 wa_ignoreInitial = (case i of None \<Rightarrow> True | Some b \<Rightarrow> b), wa_events = []\<rparr>),
      (if watchers st p \<noteq> None then snd (stopWatching st p) else st)
        \<lparr>heap := heap (if watchers st p \<noteq> None then snd (stopWatching st p) else st)
            @ [\<lparr>w_path = p, w_recursive = (case r of None \<Rightarrow> False | Some b \<Rightarrow> b),
               w_ignoreInitial = (case i of None \<Rightarrow> True | Some b \<Rightarrow> b), w_ignored = g,
               w_closed = False, w_events = []\<rparr>],
         watchers := (watchers (if watchers st p \<noteq> None then snd (stopWatching st p) else st))
            (p \<mapsto> length (heap (if watchers st p \<noteq> None then snd (stopWatching st p) else st)))\<rparr>)"
proof -
  from assms(2) obtain n where "fs p = Some n" by auto
  then have "fs_access fs p = Inr ()" by (simp add: fs_access_def)
  then show ?thesis
    unfolding watchFile_def Let_def using assms(1) by (simp add: slice_last_def)
qed

lemma consistent_watchFile:
  assumes "consistent st"
  shows "consistent (snd (watchFile st fs p r i g))"
proof (cases "p \<noteq> [] \<and> fs p \<noteq> None")
  case False
  then have "snd (watchFile st fs p r i g) = st"
    by (auto simp: watchFile_def fs_access_def)
  with assms show ?thesis by simp
next
  case True
  let ?st1 = "if watchers st p \<noteq> None then snd (stopWatching st p) else st"
  have c: "consistent ?st1" using assms by (simp add: consistent_stopWatching)
  have n: "watchers ?st1 p = None" by (simp add: stopWatching_unregisters)
  from True have a: "p \<noteq> []" "fs p \<noteq> None" by simp_all
  show ?thesis
    unfolding watchFile_accessible [of p fs, OF a] snd_conv
    by (rule consistent_register [OF c n]) simp_all
qed

lemma watchFile_registers:
  assumes "p \<noteq> []" "fs p \<noteq> None"
  shows "success (fst (watchFile st fs p r i g))"
    and "\<exists>k. watchers (snd (watchFile st fs p r i g)) p = Some k \<and> length (heap st) \<le> k"
proof -
  show "success (fst (watchFile st fs p r i g))"
    unfolding watchFile_accessible [of p fs, OF assms] by (simp add: ok_def)
  have "length (heap st) \<le> length (heap (snd (stopWatching st p)))"
    by (cases "watchers st p") (simp_all add: stopWatching_def)
  then show "\<exists>k. watchers (snd (watchFile st fs p r i g)) p = Some k \<and> length (heap st) \<le> k"
    unfolding watchFile_accessible [of p fs, OF assms] by simp
qed

lemma consistent_emit:
  assumes "consistent st"
  shows "consistent (emit k ev st)"
proof (cases "k < length (heap st) \<and> \<not> w_closed (heap st ! k)")
  case False
  with assms show ?thesis by (auto simp: emit_def)
next
  case True
  let ?st = "st\<lparr>heap := (heap st)[k := (heap st ! k)\<lparr>w_events := w_events (heap st ! k) @ [ev]\<rparr>]\<rparr>"
  have same: "w_path (heap ?st ! j) = w_path (heap st ! j) \<and> w_closed (heap ?st ! j) = w_closed (heap st ! j)"
    if "j < length (heap st)" for j
    using that by (cases "j = k") simp_all
  have "consistent ?st"
  proof (rule consistentI)
    fix q j assume "watchers ?st q = Some j"
    then have "watchers st q = Some j" by simp
    from consistent_registered [OF assms this] same [of j]
    show "j < length (heap ?st) \<and> w_path (heap ?st ! j) = q \<and> \<not> w_closed (heap ?st ! j)" by simp
  next
    fix j assume "j < length (heap ?st)" "\<not> w_closed (heap ?st ! j)"
    then have j: "j < length (heap st)" "\<not> w_closed (heap st ! j)" using same [of j] by simp_all
    from consistent_open [OF assms j] same [OF j(1)]
    show "watchers ?st (w_path (heap ?st ! j)) = Some j" by simp
  qed
  with True show ?thesis by (simp add: emit_def)
qed

text \<open>
  Claim C4. From a consistent registry, for a non-empty path that exists at both calls:
  two watchFile calls in succession both succeed and leave exactly one active
  registration for the path, the one the registry holds; the watcher of the first call is
  another one and has been closed. A stopWatching then succeeds and leaves no active
  registration, and a second stopWatching fails with "Watcher not found", changing
  nothing.
\<close>

theorem watch_twice_then_stop:
  fixes st :: watch_state and fs fs' :: filesystem and p :: string
    and r i r' i' :: "bool option" and g g' :: "string list option"
  defines "st1 \<equiv> snd (watchFile st fs p r i g)"
  defines "st2 \<equiv> snd (watchFile st1 fs' p r' i' g')"
  defines "st3 \<equiv> snd (stopWatching st2 p)"
  assumes "consistent st" "p \<noteq> []" "fs p \<noteq> None" "fs' p \<noteq> None"
  shows "success (fst (watchFile st fs p r i g))
     \<and> success (fst (watchFile st1 fs' p r' i' g'))
     \<and> (\<exists>k1 k2. active st1 p = [k1] \<and> active st2 p = [k2] \<and> watchers st2 p = Some k2
           \<and> k1 \<noteq> k2 \<and> w_closed (heap st2 ! k1))
     \<and> fst (stopWatching st2 p) = ok p (Some False)
     \<and> active st3 p = [] \<and> watchers st3 p = None
     \<and> stopWatching st3 p = (failed p (Text ''Watcher not found''), st3)"
proof -
  have c1: "consistent st1" unfolding st1_def by (rule consistent_watchFile [OF assms(4)])
  have c2: "consistent st2" unfolding st2_def by (rule consistent_watchFile [OF c1])
  have c3: "consistent st3" unfolding st3_def by (rule consistent_stopWatching [OF c2])
  from watchFile_registers(2) [of p fs st r i g, OF assms(5,6)]
  obtain k1 where k1: "watchers st1 p = Some k1" unfolding st1_def by blast
  note r1 = consistent_registered [OF c1 k1]
  have a1: "active st1 p = [k1]" by (rule active_registered [OF c1 k1])
  from watchFile_registers(2) [of p fs' st1 r' i' g', OF assms(5,7)]
  obtain k2 where k2: "watchers st2 p = Some k2" "length (heap st1) \<le> k2"
    unfolding st2_def by blast
  have a2: "active st2 p = [k2]" by (rule active_registered [OF c2 k2(1)])
  from r1 k2(2) have ne: "k1 \<noteq> k2" by simp
  have closed: "w_closed (heap st2 ! k1)"
    unfolding st2_def watchFile_accessible [of p fs', OF assms(5,7)] snd_conv
    using k1 r1 by (simp add: stopWatching_registered nth_append)
  have s2: "stopWatching st2 p
      = (ok p (Some False),
         st2\<lparr>heap := (heap st2)[k2 := (heap st2 ! k2)\<lparr>w_closed := True\<rparr>],
             watchers := (watchers st2)(p := None)\<rparr>)"
    by (rule stopWatching_registered [OF k2(1)])
  have n3: "watchers st3 p = None" unfolding st3_def by (rule stopWatching_unregisters)
  have a3: "active st3 p = []" by (rule active_unregistered [OF c3 n3])
  have s3: "stopWatching st3 p = (failed p (Text ''Watcher not found''), st3)"
    by (rule stopWatching_unregistered [OF n3])
  have w1: "success (fst (watchFile st fs p r i g))"
    by (rule watchFile_registers(1) [of p fs, OF assms(5,6)])
  have w2: "success (fst (watchFile st1 fs' p r' i' g'))"
    by (rule watchFile_registers(1) [of p fs', OF assms(5,7)])
  from s2 have f2: "fst (stopWatching st2 p) = ok p (Some False)" by simp
  from a1 a2 k2(1) ne closed have ex: "\<exists>k1 k2. active st1 p = [k1] \<and> active st2 p = [k2]
      \<and> watchers st2 p = Some k2 \<and> k1 \<noteq> k2 \<and> w_closed (heap st2 ! k1)" by blast
  from w1 w2 ex f2 a3 n3 s3 show ?thesis by blast
qed

theorem watch_twice_then_stop_witness:
  "consistent \<lparr>watchers = Map.empty, heap = []\<rparr>
   \<and> length (active (snd (watchFile (snd (watchFile \<lparr>watchers = Map.empty, heap = []\<rparr>
         [''/a'' \<mapsto> File []] ''/a'' None None None)) [''/a'' \<mapsto> File []] ''/a'' None None None))
        ''/a'') = 1
   \<and> fst (stopWatching (snd (watchFile (snd (watchFile \<lparr>watchers = Map.empty, heap = []\<rparr>
         [''/a'' \<mapsto> File []] ''/a'' None None None)) [''/a'' \<mapsto> File []] ''/a'' None None None))
        ''/a'') = ok ''/a'' (Some False)
   \<and> fst (stopWatching (snd (stopWatching (snd (watchFile (snd (watchFile
         \<lparr>watchers = Map.empty, heap = []\<rparr>
         [''/a'' \<mapsto> File []] ''/a'' None None None)) [''/a'' \<mapsto> File []] ''/a'' None None None))
        ''/a'')) ''/a'') = failed ''/a'' (Text ''Watcher not found'')"
proof -
  have h: "''/a'' \<noteq> []" "[''/a'' \<mapsto> File []] ''/a'' \<noteq> None" by simp_all
  from watch_twice_then_stop [where st = "\<lparr>watchers = Map.empty, heap = []\<rparr>"
      and fs = "[''/a'' \<mapsto> File []]" and fs' = "[''/a'' \<mapsto> File []]" and p = "''/a''"
      and r = None and i = None and g = None and r' = None and i' = None and g' = None,
      OF consistent_initial h h(2)]
  show ?thesis using consistent_initial by auto
qed

lemma emit_appends:
  "k < length (heap st) \<Longrightarrow> \<not> w_closed (heap st ! k) \<Longrightarrow>
     w_events (heap (emit k ev st) ! k) = w_events (heap st ! k) @ [ev]"
  by (simp add: emit_def)

text \<open>
  Claim C3 does not hold of the code. The \<open>events\<close> of the envelope are the last 10 of
  the array at the moment watchFile returns, when no event has been delivered: the list is
  empty. The array itself only grows: after 11 events it holds 11, and nothing but the
  handlers refers to it.
\<close>

theorem watch_events_unbounded:
  "wa_events (the (data (fst (watchFile \<lparr>watchers = Map.empty, heap = []\<rparr>
       [''/a'' \<mapsto> File []] ''/a'' None None None)))) = []
   \<and> length (w_events (heap (fold (emit 0)
        (replicate 11 \<lparr>ev_type = change, ev_path = ''/a'', ev_stats = None\<rparr>)
        (snd (watchFile \<lparr>watchers = Map.empty, heap = []\<rparr>
           [''/a'' \<mapsto> File []] ''/a'' None None None))) ! 0)) = 11"
  by code_simp

section \<open>The cache and the resource handler\<close>

lemma startsWith_exclusive:
  assumes "startsWith s p" "startsWith s q" "length p \<le> length q"
  shows "take (length p) q = p"
proof -
  have "take (length p) q = take (length p) (take (length q) s)"
    using assms(2) by (simp add: startsWith_def)
  also have "\<dots> = take (length p) s" using assms(3) by (simp add: min_def)
  also have "\<dots> = p" using assms(1) by (simp add: startsWith_def)
  finally show ?thesis .
qed

lemma not_watch_status:
  "startsWith uri ''file://metadata/'' \<Longrightarrow> \<not> startsWith uri ''file://watch/status/''"
  "startsWith uri ''file://directory/'' \<Longrightarrow> \<not> startsWith uri ''file://watch/status/''"
  "startsWith uri ''file://search/cache/'' \<Longrightarrow> \<not> startsWith uri ''file://watch/status/''"
  using startsWith_exclusive [of uri "''file://metadata/''" "''file://watch/status/''"]
    startsWith_exclusive [of uri "''file://directory/''" "''file://watch/status/''"]
    startsWith_exclusive [of uri "''file://search/cache/''" "''file://watch/status/''"]
  by auto

lemma getCachedData_live:
  assumes "c key = Some \<lparr>ce_data = d, ce_timestamp = s, ce_ttl = l\<rparr>" "now - s \<le> l"
  shows "getCachedData c now key = (Some d, c)"
  using assms by (simp add: getCachedData_def)

lemma getCachedData_expired:
  assumes "c key = Some \<lparr>ce_data = d, ce_timestamp = s, ce_ttl = l\<rparr>" "now - s > l"
  shows "getCachedData c now key = (None, c(key := None))"
  using assms by (simp add: getCachedData_def)

lemma fetch_hit:
  assumes "c key = Some \<lparr>ce_data = d, ce_timestamp = s, ce_ttl = l\<rparr>" "t_lookup t - s \<le> l"
  shows "fetch c t key subj fresh ttl
     = Some (d\<lparr>cached := True\<rparr>,
             c(key \<mapsto> \<lparr>ce_data = d\<lparr>cached := True\<rparr>, ce_timestamp = s, ce_ttl = l\<rparr>))"
  using assms by (simp add: fetch_def getCachedData_live [of c key, OF assms] Let_def)

lemma fetch_expired:
  assumes "c key = Some \<lparr>ce_data = d, ce_timestamp = s, ce_ttl = l\<rparr>" "t_lookup t - s > l"
  shows "fetch c t key subj (Some b) ttl
     = Some (\<lparr>subject = subj, body = b, cached = False, timestamp = t_stamp t\<rparr>,
             c(key \<mapsto> \<lparr>ce_data = \<lparr>subject = subj, body = b, cached = False,
                                    timestamp = t_stamp t\<rparr>,
                        ce_timestamp = t_store t, ce_ttl = ttl\<rparr>))"
  by (simp add: fetch_def getCachedData_expired [of c key, OF assms] setCachedData_def Let_def)

lemma fetch_miss:
  assumes "fst (getCachedData c (t_lookup t) key) = None"
  shows "\<exists>c'. fetch c t key subj (Some b) ttl
     = Some (\<lparr>subject = subj, body = b, cached = False, timestamp = t_stamp t\<rparr>, c')"
  using assms by (cases "getCachedData c (t_lookup t) key") (simp add: fetch_def Let_def)

lemma fetch_cold:
  assumes "fst (getCachedData c (t_lookup t) key) = None"
  shows "fetch c t key subj (Some b) ttl
     = Some (\<lparr>subject = subj, body = b, cached = False, timestamp = t_stamp t\<rparr>,
             c(key \<mapsto> \<lparr>ce_data = \<lparr>subject = subj, body = b, cached = False,
                                    timestamp = t_stamp t\<rparr>,
                        ce_timestamp = t_store t, ce_ttl = ttl\<rparr>))"
proof (cases "c key")
  case None
  then show ?thesis by (simp add: fetch_def getCachedData_def setCachedData_def Let_def)
next
  case (Some e)
  with assms have "t_lookup t - ce_timestamp e > ce_ttl e"
    by (simp add: getCachedData_def split: if_splits)
  with Some show ?thesis by (simp add: fetch_def getCachedData_def setCachedData_def Let_def)
qed

lemma startsWith_nth: "startsWith s p \<Longrightarrow> i < length p \<Longrightarrow> s ! i = p ! i"
  unfolding startsWith_def by (metis nth_take)

lemma resource_tags:
  "startsWith uri ''file://metadata/'' \<Longrightarrow> uri ! 7 = CHR ''m'' \<and> uri ! 8 = CHR ''e''"
  "startsWith uri ''file://directory/'' \<Longrightarrow> uri ! 7 = CHR ''d'' \<and> uri ! 8 = CHR ''i''"
  "startsWith uri ''file://search/cache/'' \<Longrightarrow> uri ! 7 = CHR ''s'' \<and> uri ! 8 = CHR ''e''"
  "startsWith uri ''file://watch/status/'' \<Longrightarrow> uri ! 7 = CHR ''w'' \<and> uri ! 8 = CHR ''a''"
  "startsWith uri ''file://recent/'' \<Longrightarrow> uri ! 7 = CHR ''r'' \<and> uri ! 8 = CHR ''e''"
  "startsWith uri ''file://structure/'' \<Longrightarrow> uri ! 7 = CHR ''s'' \<and> uri ! 8 = CHR ''t''"
  "startsWith uri ''file://content/preview/'' \<Longrightarrow> uri ! 7 = CHR ''c'' \<and> uri ! 8 = CHR ''o''"
  using startsWith_nth [of uri _ 7] startsWith_nth [of uri _ 8] by fastforce+

lemma read_resource_route:
  assumes "(pfx, ty, field) \<in> set resource_kinds" and "startsWith uri pfx"
  shows "read_resource V L w t uri
     = branch V w t uri pfx (pfx \<noteq> ''file://recent/'') ty field (computed V L (the_fs w) pfx)
         (if pfx = ''file://watch/status/'' then FILE_WATCH_CACHE_TTL else DEFAULT_CACHE_TTL)"
proof -
  from assms(1) have
      "pfx = ''file://metadata/'' \<and> ty = ''metadata'' \<and> field = ''path''
     \<or> pfx = ''file://directory/'' \<and> ty = ''directory'' \<and> field = ''path''
     \<or> pfx = ''file://search/cache/'' \<and> ty = ''search_cache'' \<and> field = ''query''
     \<or> pfx = ''file://watch/status/'' \<and> ty = ''watch_status'' \<and> field = ''path''
     \<or> pfx = ''file://recent/'' \<and> ty = ''recent_files'' \<and> field = ''type''
     \<or> pfx = ''file://structure/'' \<and> ty = ''directory_structure'' \<and> field = ''path''
     \<or> pfx = ''file://content/preview/'' \<and> ty = ''content_preview'' \<and> field = ''path''"
    by (simp add: resource_kinds_def)
  then show ?thesis
  proof (elim disjE conjE)
    assume 1: "pfx = ''file://metadata/''" "ty = ''metadata''" "field = ''path''"
    have c: "computed V L (the_fs w) ''file://metadata/''
        = (\<lambda>p. Some (Metadata (getFileInfo V (the_fs w) p)))"
      by (rule ext) (simp add: computed_def)
    from assms(2) show ?thesis unfolding 1 c by (simp add: read_resource_def)
  next
    assume 2: "pfx = ''file://directory/''" "ty = ''directory''" "field = ''path''"
    have c: "computed V L (the_fs w) ''file://directory/''
        = (\<lambda>p. Some (Contents (listDirectory V (the_fs w) p)))"
      by (rule ext) (simp add: computed_def)
    from assms(2) have u: "startsWith uri ''file://directory/''" unfolding 2 .
    from resource_tags(2) [OF u] have n: "\<not> startsWith uri ''file://metadata/''"
      using resource_tags(1) [of uri] by auto
    from u n show ?thesis unfolding 2 c by (simp add: read_resource_def)
  next
    assume 3: "pfx = ''file://search/cache/''" "ty = ''search_cache''" "field = ''query''"
    have c: "computed V L (the_fs w) ''file://search/cache/''
        = (\<lambda>q. map_option Results
                 (searchInFiles L (the_fs w) (lit q) (Some ''/'') None None (Some False)
                    (Some False) (Some False) (Some 2)))"
      by (rule ext) (simp add: computed_def)
    from assms(2) have u: "startsWith uri ''file://search/cache/''" unfolding 3 .
    from resource_tags(3) [OF u] have n: "\<not> startsWith uri ''file://metadata/''"
      "\<not> startsWith uri ''file://directory/''"
      using resource_tags(1,2) [of uri] by auto
    from u n show ?thesis unfolding 3 c by (simp add: read_resource_def)
  next
    assume 4: "pfx = ''file://watch/status/''" "ty = ''watch_status''" "field = ''path''"
    have c: "computed V L (the_fs w) ''file://watch/status/'' = (\<lambda>p. Some (WatchStatus False []))"
      by (rule ext) (simp add: computed_def)
    from assms(2) have u: "startsWith uri ''file://watch/status/''" unfolding 4 .
    from resource_tags(4) [OF u] have n: "\<not> startsWith uri ''file://metadata/''"
      "\<not> startsWith uri ''file://directory/''" "\<not> startsWith uri ''file://search/cache/''"
      using resource_tags(1,2,3) [of uri] by auto
    from u n show ?thesis unfolding 4 c by (simp add: read_resource_def)
  next
    assume 5: "pfx = ''file://recent/''" "ty = ''recent_files''" "field = ''type''"
    have c: "computed V L (the_fs w) ''file://recent/'' = (\<lambda>ty. Some (RecentFiles [] 0))"
      by (rule ext) (simp add: computed_def)
    from assms(2) have u: "startsWith uri ''file://recent/''" unfolding 5 .
    from resource_tags(5) [OF u] have n: "\<not> startsWith uri ''file://metadata/''"
      "\<not> startsWith uri ''file://directory/''" "\<not> startsWith uri ''file://search/cache/''"
      "\<not> startsWith uri ''file://watch/status/''"
      using resource_tags(1,2,3,4) [of uri] by auto
    from u n show ?thesis unfolding 5 c by (simp add: read_resource_def)
  next
    assume 6: "pfx = ''file://structure/''" "ty = ''directory_structure''" "field = ''path''"
    have c: "computed V L (the_fs w) ''file://structure/''
        = (\<lambda>p. Some (Structure (getDirectoryStructure V (the_fs w) p)))"
      by (rule ext) (simp add: computed_def)
    from assms(2) have u: "startsWith uri ''file://structure/''" unfolding 6 .
    from resource_tags(6) [OF u] have n: "\<not> startsWith uri ''file://metadata/''"
      "\<not> startsWith uri ''file://directory/''" "\<not> startsWith uri ''file://search/cache/''"
      "\<not> startsWith uri ''file://watch/status/''" "\<not> startsWith uri ''file://recent/''"
      using resource_tags(1,2,3,4,5) [of uri] by auto
    from u n show ?thesis unfolding 6 c by (simp add: read_resource_def)
  next
    assume 7: "pfx = ''file://content/preview/''" "ty = ''content_preview''" "field = ''path''"
    have c: "computed V L (the_fs w) ''file://content/preview/''
        = (\<lambda>p. Some (Preview (getFilePreview V (the_fs w) p)))"
      by (rule ext) (simp add: computed_def)
    from assms(2) have u: "startsWith uri ''file://content/preview/''" unfolding 7 .
    from resource_tags(7) [OF u] have n: "\<not> startsWith uri ''file://metadata/''"
      "\<not> startsWith uri ''file://directory/''" "\<not> startsWith uri ''file://search/cache/''"
      "\<not> startsWith uri ''file://watch/status/''" "\<not> startsWith uri ''file://recent/''"
      "\<not> startsWith uri ''file://structure/''"
      using resource_tags(1,2,3,4,5,6) [of uri] by auto
    from u n show ?thesis unfolding 7 c by (simp add: read_resource_def)
  qed
qed

lemma branch_first:
  assumes "(if dec then decodeURIComponent V (replace_first uri pfx)
            else Some (replace_first uri pfx)) = Some arg"
    and "fst (getCachedData (the_cache w0) (t_lookup t1) (getCacheKey V ty field arg)) = None"
    and "fr arg = Some b"
  shows "branch V w0 t1 uri pfx dec ty field fr ttl
     = Some (Inr \<lparr>subject = arg, body = b, cached = False, timestamp = t_stamp t1\<rparr>,
             w0\<lparr>the_cache := (the_cache w0)(getCacheKey V ty field arg \<mapsto>
                  \<lparr>ce_data = \<lparr>subject = arg, body = b, cached = False, timestamp = t_stamp t1\<rparr>,
                   ce_timestamp = t_store t1, ce_ttl = ttl\<rparr>)\<rparr>)"
proof -
  have f: "fetch (the_cache w0) t1 (getCacheKey V ty field arg) arg (fr arg) ttl
     = Some (\<lparr>subject = arg, body = b, cached = False, timestamp = t_stamp t1\<rparr>,
             (the_cache w0)(getCacheKey V ty field arg \<mapsto>
                  \<lparr>ce_data = \<lparr>subject = arg, body = b, cached = False, timestamp = t_stamp t1\<rparr>,
                   ce_timestamp = t_store t1, ce_ttl = ttl\<rparr>))"
    unfolding assms(3) by (rule fetch_cold [OF assms(2)])
  show ?thesis
    unfolding branch_def assms(1) by (simp add: f)
qed

lemma branch_served:
  fixes V :: "'v views" and b :: "'v body" and arg ty field :: string and t1 :: ticks
  defines "d1 \<equiv> \<lparr>subject = arg, body = b, cached = False, timestamp = t_stamp t1\<rparr>"
    and "key \<equiv> getCacheKey V ty field arg"
  assumes "(if dec then decodeURIComponent V (replace_first uri pfx)
            else Some (replace_first uri pfx)) = Some arg"
    and "fr (the_fs w0) arg = Some b"
    and "the_cache w key = Some \<lparr>ce_data = d, ce_timestamp = t_store t1, ce_ttl = ttl\<rparr>"
    and "d = d1 \<or> d = d1\<lparr>cached := True\<rparr>"
  shows "(t_lookup t - t_store t1 \<le> ttl \<longrightarrow>
             fst (getCachedData (the_cache w) (t_lookup t) key) = Some d
             \<and> branch V w t uri pfx dec ty field (fr (the_fs w)) ttl
                = Some (Inr (d1\<lparr>cached := True\<rparr>),
                        w\<lparr>the_cache := (the_cache w)(key \<mapsto>
                             \<lparr>ce_data = d1\<lparr>cached := True\<rparr>, ce_timestamp = t_store t1,
                              ce_ttl = ttl\<rparr>)\<rparr>))
          \<and> (ttl < t_lookup t - t_store t1 \<longrightarrow>
             getCachedData (the_cache w) (t_lookup t) key = (None, (the_cache w)(key := None))
             \<and> (the_fs w = the_fs w0 \<longrightarrow>
                 branch V w t uri pfx dec ty field (fr (the_fs w)) ttl
                   = Some (Inr (d1\<lparr>timestamp := t_stamp t\<rparr>),
                           w\<lparr>the_cache := (the_cache w)(key \<mapsto>
                                \<lparr>ce_data = d1\<lparr>timestamp := t_stamp t\<rparr>,
                                 ce_timestamp = t_store t, ce_ttl = ttl\<rparr>)\<rparr>)))"
proof -
  note e = assms(5)
  have br: "branch V w t uri pfx dec ty field fresh ttl
      = (case fetch (the_cache w) t key arg (fresh arg) ttl of
           None \<Rightarrow> None | Some (d, c) \<Rightarrow> Some (Inr d, w\<lparr>the_cache := c\<rparr>))" for fresh
    using assms(3) by (simp add: branch_def key_def)
  have "fst (getCachedData (the_cache w) (t_lookup t) key) = Some d
             \<and> branch V w t uri pfx dec ty field (fr (the_fs w)) ttl
                = Some (Inr (d1\<lparr>cached := True\<rparr>),
                        w\<lparr>the_cache := (the_cache w)(key \<mapsto>
                             \<lparr>ce_data = d1\<lparr>cached := True\<rparr>, ce_timestamp = t_store t1,
                              ce_ttl = ttl\<rparr>)\<rparr>)"
    if live: "t_lookup t - t_store t1 \<le> ttl"
  proof -
    from assms(6) have dd: "d\<lparr>cached := True\<rparr> = d1\<lparr>cached := True\<rparr>" by auto
    show ?thesis
      unfolding br fetch_hit [of "the_cache w" key, OF e live]
        getCachedData_live [of "the_cache w" key, OF e live] dd
      by simp
  qed
  moreover have "getCachedData (the_cache w) (t_lookup t) key = (None, (the_cache w)(key := None))
             \<and> (the_fs w = the_fs w0 \<longrightarrow>
                 branch V w t uri pfx dec ty field (fr (the_fs w)) ttl
                   = Some (Inr (d1\<lparr>timestamp := t_stamp t\<rparr>),
                           w\<lparr>the_cache := (the_cache w)(key \<mapsto>
                                \<lparr>ce_data = d1\<lparr>timestamp := t_stamp t\<rparr>,
                                 ce_timestamp = t_store t, ce_ttl = ttl\<rparr>)\<rparr>))"
    if old: "ttl < t_lookup t - t_store t1"
  proof -
    have g: "getCachedData (the_cache w) (t_lookup t) key = (None, (the_cache w)(key := None))"
      by (rule getCachedData_expired [of "the_cache w" key, OF e old])
    have "branch V w t uri pfx dec ty field (fr (the_fs w)) ttl
                   = Some (Inr (d1\<lparr>timestamp := t_stamp t\<rparr>),
                           w\<lparr>the_cache := (the_cache w)(key \<mapsto>
                                \<lparr>ce_data = d1\<lparr>timestamp := t_stamp t\<rparr>,
                                 ce_timestamp = t_store t, ce_ttl = ttl\<rparr>)\<rparr>)"
      if same: "the_fs w = the_fs w0"
      unfolding br same assms(4) fetch_expired [of "the_cache w" key, OF e old]
      by (simp add: d1_def)
    with g show ?thesis by blast
  qed
  ultimately show ?thesis by blast
qed

text \<open>
  Claim C2. Take any of the seven resources (the prefix \<open>pfx\<close> with the type and the
  field of its cache key), a URI with that prefix whose argument decodes to \<open>arg\<close>, and a
  state in which the lookup of the key misses (no entry, or one older than its ttl) and
  the resource's computation returns the body \<open>b\<close>. The read answers the payload \<open>d1\<close>:
  \<open>arg\<close>, \<open>b\<close>, \<open>cached\<close> false and the time of the stamp; it stores \<open>d1\<close> under the key
  with the time of the store and the ttl (30 seconds for watch status, 5 minutes
  otherwise) and changes nothing else. From any state whose cache still holds that
  entry (as stored, or with the flag set by an earlier hit): a read whose lookup time is
  within the ttl finds the entry and answers \<open>d1\<close> with only \<open>cached\<close> changed to true,
  whatever the file system is by then; a read whose lookup time is past the ttl
  (\<open>now - storedAt > ttl\<close>) gets absent from the lookup, which deletes the entry, and, the
  underlying data being unchanged, answers \<open>d1\<close> with \<open>cached\<close> false and the new
  timestamp, and stores that payload with the new store time.
\<close>

theorem cache_law:
  fixes V :: "'v views" and b :: "'v body" and uri pfx ty field arg :: string and t1 :: ticks
  defines "ttl \<equiv> (if pfx = ''file://watch/status/'' then FILE_WATCH_CACHE_TTL
                   else DEFAULT_CACHE_TTL)"
    and "key \<equiv> getCacheKey V ty field arg"
    and "d1 \<equiv> \<lparr>subject = arg, body = b, cached = False, timestamp = t_stamp t1\<rparr>"
  assumes "(pfx, ty, field) \<in> set resource_kinds" and "startsWith uri pfx"
    and "(if pfx = ''file://recent/'' then Some (replace_first uri pfx)
          else decodeURIComponent V (replace_first uri pfx)) = Some arg"
    and "computed V L (the_fs w0) pfx arg = Some b"
    and "fst (getCachedData (the_cache w0) (t_lookup t1) key) = None"
  shows "read_resource V L w0 t1 uri
           = Some (Inr d1, w0\<lparr>the_cache := (the_cache w0)(key \<mapsto>
                      \<lparr>ce_data = d1, ce_timestamp = t_store t1, ce_ttl = ttl\<rparr>)\<rparr>)
     \<and> \<not> cached d1
     \<and> (\<forall>w t d. the_cache w key = Some \<lparr>ce_data = d, ce_timestamp = t_store t1, ce_ttl = ttl\<rparr>
              \<and> (d = d1 \<or> d = d1\<lparr>cached := True\<rparr>) \<longrightarrow>
          (t_lookup t - t_store t1 \<le> ttl \<longrightarrow>
             fst (getCachedData (the_cache w) (t_lookup t) key) = Some d
             \<and> read_resource V L w t uri
                = Some (Inr (d1\<lparr>cached := True\<rparr>),
                        w\<lparr>the_cache := (the_cache w)(key \<mapsto>
                             \<lparr>ce_data = d1\<lparr>cached := True\<rparr>, ce_timestamp = t_store t1,
                              ce_ttl = ttl\<rparr>)\<rparr>))
          \<and> (ttl < t_lookup t - t_store t1 \<longrightarrow>
             getCachedData (the_cache w) (t_lookup t) key = (None, (the_cache w)(key := None))
             \<and> (the_fs w = the_fs w0 \<longrightarrow>
                 read_resource V L w t uri
                   = Some (Inr (d1\<lparr>timestamp := t_stamp t\<rparr>),
                           w\<lparr>the_cache := (the_cache w)(key \<mapsto>
                                \<lparr>ce_data = d1\<lparr>timestamp := t_stamp t\<rparr>,
                                 ce_timestamp = t_store t, ce_ttl = ttl\<rparr>)\<rparr>))))"
proof -
  let ?dec = "pfx \<noteq> ''file://recent/''"
  have R: "read_resource V L w t uri
      = branch V w t uri pfx ?dec ty field (computed V L (the_fs w) pfx) ttl" for w t
    unfolding ttl_def by (rule read_resource_route [OF assms(4,5)])
  have arg: "(if ?dec then decodeURIComponent V (replace_first uri pfx)
            else Some (replace_first uri pfx)) = Some arg"
    using assms(6) by (simp split: if_splits)
  have first: "read_resource V L w0 t1 uri
           = Some (Inr d1, w0\<lparr>the_cache := (the_cache w0)(key \<mapsto>
                      \<lparr>ce_data = d1, ce_timestamp = t_store t1, ce_ttl = ttl\<rparr>)\<rparr>)"
    unfolding R d1_def key_def
    by (rule branch_first [where dec = ?dec and fr = "computed V L (the_fs w0) pfx" and V = V
          and uri = uri and pfx = pfx and arg = arg and b = b,
          OF arg assms(8) [unfolded key_def] assms(7)])
  have law: "(t_lookup t - t_store t1 \<le> ttl \<longrightarrow>
             fst (getCachedData (the_cache w) (t_lookup t) key) = Some d
             \<and> read_resource V L w t uri
                = Some (Inr (d1\<lparr>cached := True\<rparr>),
                        w\<lparr>the_cache := (the_cache w)(key \<mapsto>
                             \<lparr>ce_data = d1\<lparr>cached := True\<rparr>, ce_timestamp = t_store t1,
                              ce_ttl = ttl\<rparr>)\<rparr>))
          \<and> (ttl < t_lookup t - t_store t1 \<longrightarrow>
             getCachedData (the_cache w) (t_lookup t) key = (None, (the_cache w)(key := None))
             \<and> (the_fs w = the_fs w0 \<longrightarrow>
                 read_resource V L w t uri
                   = Some (Inr (d1\<lparr>timestamp := t_stamp t\<rparr>),
                           w\<lparr>the_cache := (the_cache w)(key \<mapsto>
                                \<lparr>ce_data = d1\<lparr>timestamp := t_stamp t\<rparr>,
                                 ce_timestamp = t_store t, ce_ttl = ttl\<rparr>)\<rparr>)))"
    if "the_cache w key = Some \<lparr>ce_data = d, ce_timestamp = t_store t1, ce_ttl = ttl\<rparr>"
      and "d = d1 \<or> d = d1\<lparr>cached := True\<rparr>" for w t d
    unfolding R d1_def key_def
    by (rule branch_served [where fr = "\<lambda>fs. computed V L fs pfx" and dec = ?dec and V = V
          and uri = uri and pfx = pfx and arg = arg and b = b and ?w0.0 = w0,
          OF arg assms(7) that(1) [unfolded key_def] that(2) [unfolded d1_def]])
  have "\<not> cached d1" by (simp add: d1_def)
  with first law show ?thesis by blast
qed

text \<open>
  Claim C8. A read of a watch-status URI that misses the cache answers \<open>isWatching\<close>
  false and no events, whatever the watcher registry \<open>reg\<close> holds; the registry is left as
  it was.
\<close>

theorem watch_status_ignores_registry:
  assumes "startsWith uri ''file://watch/status/''"
    and "decodeURIComponent V (replace_first uri ''file://watch/status/'') = Some p"
    and "fst (getCachedData (the_cache w) (t_lookup t)
               (getCacheKey V ''watch_status'' ''path'' p)) = None"
  shows "\<exists>c. read_resource V L (w\<lparr>the_watch := reg\<rparr>) t uri
           = Some (Inr \<lparr>subject = p, body = WatchStatus False [], cached = False,
                        timestamp = t_stamp t\<rparr>,
                   w\<lparr>the_watch := reg, the_cache := c\<rparr>)"
proof -
  have n: "\<not> startsWith uri ''file://metadata/''" "\<not> startsWith uri ''file://directory/''"
    "\<not> startsWith uri ''file://search/cache/''"
    using assms(1) not_watch_status [of uri] by blast+
  from fetch_miss [OF assms(3), of p "WatchStatus False []" FILE_WATCH_CACHE_TTL]
  obtain c where f: "fetch (the_cache w) t (getCacheKey V ''watch_status'' ''path'' p) p
      (Some (WatchStatus False [])) FILE_WATCH_CACHE_TTL
     = Some (\<lparr>subject = p, body = WatchStatus False [], cached = False, timestamp = t_stamp t\<rparr>, c)"
    by blast
  show ?thesis
    using n assms(1,2) f by (intro exI [of _ c]) (simp add: read_resource_def branch_def)
qed

theorem cache_law_witness:
  "map_option fst (read_resource
       \<lparr>decodeURIComponent = Some, stringify = (\<lambda>s. s), getFileInfo = (\<lambda>fs p. ()),
        listDirectory = (\<lambda>fs p. ()), getDirectoryStructure = (\<lambda>fs p. ()),
        getFilePreview = (\<lambda>fs p. ())\<rparr>
       \<lparr>glob = (\<lambda>fs d pat dot cs. []), RegExp = (\<lambda>src ic. None), resolve = (\<lambda>p. p),
        join = (\<lambda>d f. d @ f)\<rparr>
       \<lparr>the_cache = Map.empty, the_fs = Map.empty,
        the_watch = \<lparr>watchers = Map.empty, heap = []\<rparr>\<rparr>
       \<lparr>t_lookup = 0, t_stamp = 1, t_store = 2\<rparr> ''file://directory/a'')
     = Some (Inr \<lparr>subject = ''a'', body = Contents (), cached = False, timestamp = 1\<rparr>)
   \<and> map_option fst (read_resource
       \<lparr>decodeURIComponent = Some, stringify = (\<lambda>s. s), getFileInfo = (\<lambda>fs p. ()),
        listDirectory = (\<lambda>fs p. ()), getDirectoryStructure = (\<lambda>fs p. ()),
        getFilePreview = (\<lambda>fs p. ())\<rparr>
       \<lparr>glob = (\<lambda>fs d pat dot cs. []), RegExp = (\<lambda>src ic. None), resolve = (\<lambda>p. p),
        join = (\<lambda>d f. d @ f)\<rparr>
       \<lparr>the_cache = [''directory:{path:a}'' \<mapsto>
            \<lparr>ce_data = \<lparr>subject = ''a'', body = Contents (), cached = False, timestamp = 1\<rparr>,
             ce_timestamp = 2, ce_ttl = 300000\<rparr>],
        the_fs = Map.empty, the_watch = \<lparr>watchers = Map.empty, heap = []\<rparr>\<rparr>
       \<lparr>t_lookup = 300002, t_stamp = 300003, t_store = 300004\<rparr> ''file://directory/a'')
     = Some (Inr \<lparr>subject = ''a'', body = Contents (), cached = True, timestamp = 1\<rparr>)
   \<and> map_option fst (read_resource
       \<lparr>decodeURIComponent = Some, stringify = (\<lambda>s. s), getFileInfo = (\<lambda>fs p. ()),
        listDirectory = (\<lambda>fs p. ()), getDirectoryStructure = (\<lambda>fs p. ()),
        getFilePreview = (\<lambda>fs p. ())\<rparr>
       \<lparr>glob = (\<lambda>fs d pat dot cs. []), RegExp = (\<lambda>src ic. None), resolve = (\<lambda>p. p),
        join = (\<lambda>d f. d @ f)\<rparr>
       \<lparr>the_cache = [''directory:{path:a}'' \<mapsto>
            \<lparr>ce_data = \<lparr>subject = ''a'', body = Contents (), cached = False, timestamp = 1\<rparr>,
             ce_timestamp = 2, ce_ttl = 300000\<rparr>],
        the_fs = Map.empty, the_watch = \<lparr>watchers = Map.empty, heap = []\<rparr>\<rparr>
       \<lparr>t_lookup = 300003, t_stamp = 300004, t_store = 300005\<rparr> ''file://directory/a'')
     = Some (Inr \<lparr>subject = ''a'', body = Contents (), cached = False, timestamp = 300004\<rparr>)
   \<and> map_option fst (read_resource
       \<lparr>decodeURIComponent = Some, stringify = (\<lambda>s. s), getFileInfo = (\<lambda>fs p. ()),
        listDirectory = (\<lambda>fs p. ()), getDirectoryStructure = (\<lambda>fs p. ()),
        getFilePreview = (\<lambda>fs p. ())\<rparr>
       \<lparr>glob = (\<lambda>fs d pat dot cs. []), RegExp = (\<lambda>src ic. None), resolve = (\<lambda>p. p),
        join = (\<lambda>d f. d @ f)\<rparr>
       \<lparr>the_cache = Map.empty, the_fs = Map.empty,
        the_watch = \<lparr>watchers = Map.empty, heap = []\<rparr>\<rparr>
       \<lparr>t_lookup = 0, t_stamp = 1, t_store = 2\<rparr> ''file://search/cache/a'')
     = Some (Inr \<lparr>subject = ''a'', body = Results (failed ''/'' (Message SyntaxError)),
                  cached = False, timestamp = 1\<rparr>)"
proof -
  let ?V = "\<lparr>decodeURIComponent = Some, stringify = (\<lambda>s. s), getFileInfo = (\<lambda>fs p. ()),
        listDirectory = (\<lambda>fs p. ()), getDirectoryStructure = (\<lambda>fs p. ()),
        getFilePreview = (\<lambda>fs p. ())\<rparr> :: unit views"
  let ?L = "\<lparr>glob = (\<lambda>fs d pat dot cs. []), RegExp = (\<lambda>src ic. None), resolve = (\<lambda>p. p),
        join = (\<lambda>d f. d @ f)\<rparr> :: library"
  let ?reg = "\<lparr>watchers = Map.empty, heap = []\<rparr>"
  let ?w0 = "\<lparr>the_cache = Map.empty, the_fs = Map.empty, the_watch = ?reg\<rparr> :: unit world"
  let ?d1 = "\<lparr>subject = ''a'', body = Contents (), cached = False, timestamp = 1\<rparr> :: unit payload"
  let ?e = "\<lparr>ce_data = ?d1, ce_timestamp = 2, ce_ttl = 300000\<rparr>"
  let ?w1 = "\<lparr>the_cache = [''directory:{path:a}'' \<mapsto> ?e], the_fs = Map.empty,
              the_watch = ?reg\<rparr> :: unit world"
  let ?t1 = "\<lparr>t_lookup = 0, t_stamp = 1, t_store = 2\<rparr>"
  let ?t2 = "\<lparr>t_lookup = 300002, t_stamp = 300003, t_store = 300004\<rparr>"
  let ?t3 = "\<lparr>t_lookup = 300003, t_stamp = 300004, t_store = 300005\<rparr>"
  let ?uri = "''file://directory/a''"
  let ?pfx = "''file://directory/''"
  have ttl: "(if ?pfx = ''file://watch/status/'' then FILE_WATCH_CACHE_TTL
                   else DEFAULT_CACHE_TTL) = 300000"
    by (simp add: DEFAULT_CACHE_TTL_def)
  have key: "getCacheKey ?V ''directory'' ''path'' ''a'' = ''directory:{path:a}''"
    by (simp add: getCacheKey_def)
  have h1: "(?pfx, ''directory'', ''path'') \<in> set resource_kinds"
    by (simp add: resource_kinds_def)
  have h2: "startsWith ?uri ?pfx" by (simp add: startsWith_def)
  have h3: "(if ?pfx = ''file://recent/'' then Some (replace_first ?uri ?pfx)
          else decodeURIComponent ?V (replace_first ?uri ?pfx)) = Some ''a''"
    by (simp add: startsWith_def)
  have h4: "computed ?V ?L (the_fs ?w0) ?pfx ''a'' = Some (Contents ())"
    by (simp add: computed_def)
  have h5: "fst (getCachedData (the_cache ?w0) (t_lookup ?t1)
               (getCacheKey ?V ''directory'' ''path'' ''a'')) = None"
    by (simp add: getCachedData_def)
  note cl = cache_law [where V = ?V and L = ?L and ?w0.0 = ?w0 and ?t1.0 = ?t1 and uri = ?uri
      and pfx = ?pfx and ty = "''directory''" and field = "''path''" and arg = "''a''"
      and b = "Contents ()", OF h1 h2 h3 h4 h5, unfolded ttl key]
  from cl have first: "read_resource ?V ?L ?w0 ?t1 ?uri = Some (Inr ?d1, ?w1)"
    by simp
  from cl have law: "\<And>w t d. the_cache w ''directory:{path:a}''
                = Some \<lparr>ce_data = d, ce_timestamp = t_store ?t1, ce_ttl = 300000\<rparr>
              \<and> (d = ?d1 \<or> d = ?d1\<lparr>cached := True\<rparr>) \<Longrightarrow>
          (t_lookup t - t_store ?t1 \<le> 300000 \<longrightarrow>
             fst (getCachedData (the_cache w) (t_lookup t) ''directory:{path:a}'') = Some d
             \<and> read_resource ?V ?L w t ?uri
                = Some (Inr (?d1\<lparr>cached := True\<rparr>),
                        w\<lparr>the_cache := (the_cache w)(''directory:{path:a}'' \<mapsto>
                             \<lparr>ce_data = ?d1\<lparr>cached := True\<rparr>, ce_timestamp = t_store ?t1,
                              ce_ttl = 300000\<rparr>)\<rparr>))
          \<and> (300000 < t_lookup t - t_store ?t1 \<longrightarrow>
             getCachedData (the_cache w) (t_lookup t) ''directory:{path:a}''
               = (None, (the_cache w)(''directory:{path:a}'' := None))
             \<and> (the_fs w = the_fs ?w0 \<longrightarrow>
                 read_resource ?V ?L w t ?uri
                   = Some (Inr (?d1\<lparr>timestamp := t_stamp t\<rparr>),
                           w\<lparr>the_cache := (the_cache w)(''directory:{path:a}'' \<mapsto>
                                \<lparr>ce_data = ?d1\<lparr>timestamp := t_stamp t\<rparr>,
                                 ce_timestamp = t_store t, ce_ttl = 300000\<rparr>)\<rparr>)))"
    by (simp only: ticks.select_convs) blast
  have k': "the_cache ?w1 ''directory:{path:a}''
                = Some \<lparr>ce_data = ?d1, ce_timestamp = t_store ?t1, ce_ttl = 300000\<rparr>
              \<and> (?d1 = ?d1 \<or> ?d1 = ?d1\<lparr>cached := True\<rparr>)"
    by simp
  from law [OF k', of ?t2] have second:
    "map_option fst (read_resource ?V ?L ?w1 ?t2 ?uri) = Some (Inr (?d1\<lparr>cached := True\<rparr>))"
    by simp
  from law [OF k', of ?t3] have third:
    "map_option fst (read_resource ?V ?L ?w1 ?t3 ?uri)
       = Some (Inr (?d1\<lparr>timestamp := 300004\<rparr>))"
    by simp
  let ?sp = "''file://search/cache/''"
  have s1: "(?sp, ''search_cache'', ''query'') \<in> set resource_kinds"
    by (simp add: resource_kinds_def)
  have s2: "startsWith ''file://search/cache/a'' ?sp" by (simp add: startsWith_def)
  have s3: "(if ?sp = ''file://recent/'' then Some (replace_first ''file://search/cache/a'' ?sp)
          else decodeURIComponent ?V (replace_first ''file://search/cache/a'' ?sp)) = Some ''a''"
    by (simp add: startsWith_def)
  have s4: "computed ?V ?L (the_fs ?w0) ?sp ''a''
      = Some (Results (failed ''/'' (Message SyntaxError)))"
    by (simp add: computed_def searchInFiles_def SearchInFilesSchema_parse_def lit_def Let_def)
  have s5: "fst (getCachedData (the_cache ?w0) (t_lookup ?t1)
               (getCacheKey ?V ''search_cache'' ''query'' ''a'')) = None"
    by (simp add: getCachedData_def)
  from cache_law [where V = ?V and L = ?L and ?w0.0 = ?w0 and ?t1.0 = ?t1
      and uri = "''file://search/cache/a''" and pfx = ?sp and ty = "''search_cache''"
      and field = "''query''" and arg = "''a''"
      and b = "Results (failed ''/'' (Message SyntaxError))", OF s1 s2 s3 s4 s5]
  have fourth: "map_option fst (read_resource ?V ?L ?w0 ?t1 ''file://search/cache/a'')
     = Some (Inr \<lparr>subject = ''a'', body = Results (failed ''/'' (Message SyntaxError)),
                  cached = False, timestamp = 1\<rparr>)"
    by simp
  from first second third fourth show ?thesis by simp
qed

theorem watch_status_ignores_registry_witness:
  "active (snd (watchFile \<lparr>watchers = Map.empty, heap = []\<rparr> [''/a'' \<mapsto> File []] ''/a''
              None None None)) ''/a'' = [0]
   \<and> (\<exists>c. read_resource
       \<lparr>decodeURIComponent = Some, stringify = (\<lambda>s. s), getFileInfo = (\<lambda>fs p. ()),
        listDirectory = (\<lambda>fs p. ()), getDirectoryStructure = (\<lambda>fs p. ()),
        getFilePreview = (\<lambda>fs p. ())\<rparr>
       \<lparr>glob = (\<lambda>fs d pat dot cs. []), RegExp = (\<lambda>src ic. None), resolve = (\<lambda>p. p),
        join = (\<lambda>d f. d @ f)\<rparr>
       (\<lparr>the_cache = Map.empty, the_fs = [''/a'' \<mapsto> File []],
         the_watch = \<lparr>watchers = Map.empty, heap = []\<rparr>\<rparr>
          \<lparr>the_watch := snd (watchFile \<lparr>watchers = Map.empty, heap = []\<rparr>
              [''/a'' \<mapsto> File []] ''/a'' None None None)\<rparr>)
       \<lparr>t_lookup = 5, t_stamp = 6, t_store = 7\<rparr> ''file://watch/status//a''
     = Some (Inr \<lparr>subject = ''/a'', body = WatchStatus False [], cached = False, timestamp = 6\<rparr>,
        \<lparr>the_cache = Map.empty, the_fs = [''/a'' \<mapsto> File []],
         the_watch = \<lparr>watchers = Map.empty, heap = []\<rparr>\<rparr>
          \<lparr>the_watch := snd (watchFile \<lparr>watchers = Map.empty, heap = []\<rparr>
              [''/a'' \<mapsto> File []] ''/a'' None None None), the_cache := c\<rparr>))"
proof -
  let ?V = "\<lparr>decodeURIComponent = Some, stringify = (\<lambda>s. s), getFileInfo = (\<lambda>fs p. ()),
        listDirectory = (\<lambda>fs p. ()), getDirectoryStructure = (\<lambda>fs p. ()),
        getFilePreview = (\<lambda>fs p. ())\<rparr> :: unit views"
  let ?w = "\<lparr>the_cache = Map.empty, the_fs = [''/a'' \<mapsto> File []],
         the_watch = \<lparr>watchers = Map.empty, heap = []\<rparr>\<rparr> :: unit world"
  let ?t = "\<lparr>t_lookup = 5, t_stamp = 6, t_store = 7\<rparr>"
  have a: "active (snd (watchFile \<lparr>watchers = Map.empty, heap = []\<rparr> [''/a'' \<mapsto> File []] ''/a''
              None None None)) ''/a'' = [0]"
    by code_simp
  have h1: "startsWith ''file://watch/status//a'' ''file://watch/status/''"
    by (simp add: startsWith_def)
  have h2: "decodeURIComponent ?V (replace_first ''file://watch/status//a'' ''file://watch/status/'')
      = Some ''/a''"
    by (simp add: startsWith_def)
  have h3: "fst (getCachedData (the_cache ?w) (t_lookup ?t)
               (getCacheKey ?V ''watch_status'' ''path'' ''/a'')) = None"
    by (simp add: getCachedData_def)
  from watch_status_ignores_registry [OF h1 h2 h3] a show ?thesis by simp
qed

end
